theory Spec2Isabelle
  imports Main "HOL-Library.Word"
begin

unbundle bit_operations_syntax

section \<open>Data model\<close>

text \<open>
  The driver (\<^verbatim>\<open>src/src/myssd1306.c\<close>) keeps one global framebuffer
  \<^verbatim>\<open>uint8_t ssd1306_buffer[SSD1306_W * SSD1306_H / 8]\<close>. The geometry macros
  \<^verbatim>\<open>SSD1306_W\<close>, \<^verbatim>\<open>SSD1306_H\<close> and \<^verbatim>\<open>SSD1306_OFFSET\<close> are chosen by the build
  (64x32, 72x40, 128x32, 128x64 or 128x128 in \<^verbatim>\<open>myssd1306.h\<close>), so they are parameters of
  every function here. \<^verbatim>\<open>uint32_t\<close> is \<open>32 word\<close>, \<^verbatim>\<open>uint8_t\<close> is \<open>8 word\<close>; \<open>+\<close>, \<open>-\<close>
  and \<open>*\<close> on them wrap as in C. The \<^verbatim>\<open>int\<close> variables of the line routine are
  mathematical integers: signed overflow is undefined in C, so that model describes
  the calls in which no intermediate value leaves the \<^verbatim>\<open>int\<close> range. The circle
  routines are modelled on 32-bit words.
\<close>

type_synonym u8 = "8 word"
type_synonym u32 = "32 word"
type_synonym framebuffer = "u8 list"

definition SSD1306_PSZ :: nat where
  "SSD1306_PSZ = 32"

definition buffer_size :: "u32 \<Rightarrow> u32 \<Rightarrow> nat" where
  "buffer_size W H = unat W * unat H div 8"

text \<open>
  The geometries the header offers: a positive width, a height that is a whole number
  of 8-row pages, and a pixel count that fits \<^verbatim>\<open>uint32_t\<close>.
\<close>

definition valid_geometry :: "u32 \<Rightarrow> u32 \<Rightarrow> bool" where
  "valid_geometry W H \<longleftrightarrow> 0 < unat W \<and> 8 dvd unat H \<and> unat W * unat H < 2 ^ 32"

text \<open>
  A read-modify-write of one framebuffer byte, \<^verbatim>\<open>ssd1306_buffer[addr] = f(ssd1306_buffer[addr])\<close>.
  The byte is promoted to 32 bits, \<open>f\<close> works there, and the result is truncated to 8 bits,
  as the C assignment does. An address outside the array is undefined behaviour in C; the
  model makes it the value \<open>None\<close>.
\<close>

definition buf_update :: "framebuffer \<Rightarrow> u32 \<Rightarrow> (u32 \<Rightarrow> u32) \<Rightarrow> framebuffer option" where
  "buf_update buf addr f =
     (if unat addr < length buf
      then Some (buf[unat addr := ucast (f (ucast (buf ! unat addr)))])
      else None)"

text \<open>The pixel \<open>(x, y)\<close> as the layout stores it: bit \<open>y & 7\<close> of byte \<open>x + W * (y / 8)\<close>.\<close>

definition pixel_at :: "u32 \<Rightarrow> framebuffer \<Rightarrow> u32 \<Rightarrow> u32 \<Rightarrow> bool" where
  "pixel_at W buf x y = bit (buf ! (unat x + unat W * (unat y div 8))) (unat y mod 8)"

section \<open>Pixel accessor\<close>

definition ssd1306_drawPixel ::
  "u32 \<Rightarrow> u32 \<Rightarrow> u32 \<Rightarrow> u32 \<Rightarrow> u32 \<Rightarrow> framebuffer \<Rightarrow> framebuffer option" where
  "ssd1306_drawPixel W H x y color buf =
     (if x \<ge> W then Some buf
      else if y \<ge> H then Some buf
      else let addr = x + W * (y div 8) in
        if color \<noteq> 0
        then buf_update buf addr (\<lambda>b. b OR push_bit (unat (y AND 7)) 1)
        else buf_update buf addr (\<lambda>b. b AND NOT (push_bit (unat (y AND 7)) 1)))"

definition ssd1306_xorPixel ::
  "u32 \<Rightarrow> u32 \<Rightarrow> u32 \<Rightarrow> u32 \<Rightarrow> framebuffer \<Rightarrow> framebuffer option" where
  "ssd1306_xorPixel W H x y buf =
     (if x \<ge> W then Some buf
      else if y \<ge> H then Some buf
      else let addr = x + W * (y div 8) in
        buf_update buf addr (\<lambda>b. b XOR push_bit (unat (y AND 7)) 1))"

text \<open>
  The lines, the circles and the glyphs write through \<^verbatim>\<open>ssd1306_drawPixel\<close> only
  (\<^verbatim>\<open>ssd1306_xorrect\<close> through \<^verbatim>\<open>ssd1306_xorPixel\<close>, \<^verbatim>\<open>ssd1306_drawImage\<close> directly). Each loop
  takes the pixel operation as a parameter (a sink), so that the same loop runs against the
  framebuffer (\<open>fb_pixel\<close>, which stays \<open>None\<close> once a write has left the array) and
  against a recording sink (\<open>rec_pixel\<close>) that lists the calls in order.
\<close>

type_synonym 's pixel_sink = "u32 \<Rightarrow> u32 \<Rightarrow> u32 \<Rightarrow> 's \<Rightarrow> 's"

definition fb_pixel :: "u32 \<Rightarrow> u32 \<Rightarrow> framebuffer option pixel_sink" where
  "fb_pixel W H x y color s =
     (case s of None \<Rightarrow> None | Some buf \<Rightarrow> ssd1306_drawPixel W H x y color buf)"

definition rec_pixel :: "(u32 \<times> u32 \<times> u32) list pixel_sink" where
  "rec_pixel x y color calls = calls @ [(x, y, color)]"

text \<open>
  The framebuffer is intact: no write has left the array and the array has kept its size.
\<close>

definition fb_ok :: "u32 \<Rightarrow> u32 \<Rightarrow> framebuffer option \<Rightarrow> bool" where
  "fb_ok W H s \<longleftrightarrow> (\<exists>buf. s = Some buf \<and> length buf = buffer_size W H)"

section \<open>Transfer engine\<close>

text \<open>
  The transport \<^verbatim>\<open>i2c_write_raw(dev, bytes, n)\<close> is external. A mock transport is the list
  of the byte blocks written, in order. \<^verbatim>\<open>memcpy(&pkt[1], data, sz)\<close> with
  \<^verbatim>\<open>data = &ssd1306_buffer[i]\<close> reads \<open>sz\<close> bytes from offset \<open>i\<close>; a byte fetched from
  beyond the array is \<open>None\<close>. The status the transport returns is ignored by
  \<^verbatim>\<open>ssd1306_refresh\<close> and is not modelled.
\<close>

type_synonym transport = "u8 option list list"

definition mem_read :: "framebuffer \<Rightarrow> nat \<Rightarrow> nat \<Rightarrow> u8 option list" where
  "mem_read buf i n = map (\<lambda>k. if k < length buf then Some (buf ! k) else None) [i..<i + n]"

definition ssd1306_cmd :: "u8 \<Rightarrow> transport \<Rightarrow> transport" where
  "ssd1306_cmd cmd log = log @ [[Some 0x00, Some cmd]]"

definition ssd1306_data :: "framebuffer \<Rightarrow> nat \<Rightarrow> int \<Rightarrow> transport \<Rightarrow> transport" where
  "ssd1306_data buf i sz log =
     (let sz' = (if sz > int SSD1306_PSZ then int SSD1306_PSZ else sz)
      in log @ [Some 0x40 # mem_read buf i (nat sz')])"

text \<open>
  \<^verbatim>\<open>for(i=0;i<sizeof(ssd1306_buffer);i+=SSD1306_PSZ) ssd1306_data(dev, &ssd1306_buffer[i], SSD1306_PSZ);\<close>
  The counter is a natural number: the array is far smaller than \<open>2^32 - 32\<close> bytes in
  every geometry, so \<^verbatim>\<open>i += 32\<close> never wraps.
\<close>

function refresh_loop :: "framebuffer \<Rightarrow> nat \<Rightarrow> transport \<Rightarrow> transport" where
  "refresh_loop buf i log =
     (if i < length buf
      then refresh_loop buf (i + SSD1306_PSZ) (ssd1306_data buf i (int SSD1306_PSZ) log)
      else log)"
  by pat_completeness auto
termination
  by (relation "measure (\<lambda>(buf, i, log). length buf - i)") (auto simp: SSD1306_PSZ_def)

declare refresh_loop.simps [simp del]

definition SSD1306_COLUMNADDR :: u8 where "SSD1306_COLUMNADDR = 0x21"
definition SSD1306_PAGEADDR :: u8 where "SSD1306_PAGEADDR = 0x22"

definition ssd1306_refresh :: "u32 \<Rightarrow> u32 \<Rightarrow> framebuffer \<Rightarrow> transport \<Rightarrow> transport" where
  "ssd1306_refresh W OFFSET buf log =
     (let l1 = ssd1306_cmd SSD1306_COLUMNADDR log;
          l2 = ssd1306_cmd (ucast OFFSET) l1;
          l3 = ssd1306_cmd (ucast (OFFSET + W - 1)) l2;
          l4 = ssd1306_cmd SSD1306_PAGEADDR l3;
          l5 = ssd1306_cmd 0 l4;
          l6 = ssd1306_cmd 7 l5
      in refresh_loop buf 0 l6)"

text \<open>The six command writes that open a refresh.\<close>

definition refresh_commands :: "u32 \<Rightarrow> u32 \<Rightarrow> transport" where
  "refresh_commands W OFFSET =
     [[Some 0x00, Some 0x21], [Some 0x00, Some (ucast OFFSET)],
      [Some 0x00, Some (ucast (OFFSET + W - 1))],
      [Some 0x00, Some 0x22], [Some 0x00, Some 0], [Some 0x00, Some 7]]"

text \<open>What a mock transport sees: command writes start with the control byte 0x00, data
  packets with 0x40; the payload of a packet is what follows the marker.\<close>

definition is_command :: "u8 option list \<Rightarrow> bool" where
  "is_command pkt \<longleftrightarrow> (case pkt of Some c # _ \<Rightarrow> c = 0x00 | _ \<Rightarrow> False)"

definition is_data :: "u8 option list \<Rightarrow> bool" where
  "is_data pkt \<longleftrightarrow> (case pkt of Some c # _ \<Rightarrow> c = 0x40 | _ \<Rightarrow> False)"

definition payload :: "u8 option list \<Rightarrow> u8 option list" where
  "payload pkt = tl pkt"

section \<open>Image compositor\<close>

text \<open>
  The body of the innermost loop of \<^verbatim>\<open>ssd1306_drawImage\<close> after the clip test: the
  address, the source bit \<^verbatim>\<open>input_pixel = input_byte & (1 << pixel)\<close> (a \<^verbatim>\<open>uint8_t\<close>), and
  the \<^verbatim>\<open>switch (color_mode)\<close>, which has no default case.
\<close>

definition image_put ::
  "u32 \<Rightarrow> u32 \<Rightarrow> u32 \<Rightarrow> u32 \<Rightarrow> u32 \<Rightarrow> u32 \<Rightarrow> framebuffer \<Rightarrow> framebuffer option" where
  "image_put W color_mode x_absolute y_absolute input_byte pixel buf =
     (let v_mask = push_bit (unat (y_absolute AND 7)) 1 :: u32;
          buffer_addr = x_absolute + W * (y_absolute div 8);
          input_pixel = ucast (input_byte AND push_bit (unat pixel) 1) :: u8
      in if color_mode = 0 then
           buf_update buf buffer_addr
             (\<lambda>b. (b AND NOT v_mask) OR (if input_pixel \<noteq> 0 then v_mask else 0))
         else if color_mode = 1 then
           buf_update buf buffer_addr
             (\<lambda>b. (b AND NOT v_mask) OR (if input_pixel = 0 then v_mask else 0))
         else if color_mode = 2 then
           buf_update buf buffer_addr
             (\<lambda>b. b AND (if input_pixel \<noteq> 0 then 0xFF else NOT v_mask))
         else if color_mode = 3 then
           buf_update buf buffer_addr
             (\<lambda>b. b OR (if input_pixel \<noteq> 0 then v_mask else 0))
         else if color_mode = 4 then
           buf_update buf buffer_addr
             (\<lambda>b. b OR (if input_pixel = 0 then v_mask else 0))
         else if color_mode = 5 then
           buf_update buf buffer_addr
             (\<lambda>b. b AND (if input_pixel \<noteq> 0 then NOT v_mask else 0xFF))
         else Some buf)"

text \<open>
  The loop nest, three deep, with the loop body as a parameter \<open>put\<close> that receives
  \<open>x_absolute\<close>, \<open>y_absolute\<close>, \<open>input_byte\<close> and \<open>pixel\<close>. The bitmap \<^verbatim>\<open>input\<close> is the
  caller's memory, read at a \<^verbatim>\<open>uint32_t\<close> index.

  \<^verbatim>\<open>for (pixel = 0; pixel < 8; pixel++) {
     x_absolute = x + 8 * (bytes_to_draw - byte) + pixel;
     if (x_absolute >= SSD1306_W) break;
     ... }\<close>
\<close>

type_synonym 's image_sink = "u32 \<Rightarrow> u32 \<Rightarrow> u32 \<Rightarrow> u32 \<Rightarrow> 's \<Rightarrow> 's"

function image_pixel_loop ::
  "'s image_sink \<Rightarrow> u32 \<Rightarrow> u32 \<Rightarrow> u32 \<Rightarrow> u32 \<Rightarrow> u32 \<Rightarrow> u32 \<Rightarrow> u32 \<Rightarrow> 's \<Rightarrow> 's" where
  "image_pixel_loop put W x y_absolute bytes_to_draw byte input_byte pixel s =
     (if pixel < 8 then
        let x_absolute = x + 8 * (bytes_to_draw - byte) + pixel in
        if x_absolute \<ge> W then s
        else image_pixel_loop put W x y_absolute bytes_to_draw byte input_byte (pixel + 1)
               (put x_absolute y_absolute input_byte pixel s)
      else s)"
  by pat_completeness auto
termination
  by (relation "measure (\<lambda>(put, W, x, ya, btd, byte, ib, pixel, s). 8 - unat pixel)")
    (auto simp: word_less_nat_alt unat_word_ariths)

declare image_pixel_loop.simps [simp del]

text \<open>
  \<^verbatim>\<open>for (uint32_t byte = 0; byte < bytes_to_draw; byte++) {
     uint32_t input_byte = input[byte + line * bytes_to_draw];
     ... }\<close>
\<close>

function image_byte_loop ::
  "'s image_sink \<Rightarrow> u32 \<Rightarrow> u32 \<Rightarrow> u32 \<Rightarrow> (u32 \<Rightarrow> u8) \<Rightarrow> u32 \<Rightarrow> u32 \<Rightarrow> u32 \<Rightarrow> 's \<Rightarrow> 's" where
  "image_byte_loop put W x y_absolute input bytes_to_draw line byte s =
     (if byte < bytes_to_draw then
        let input_byte = ucast (input (byte + line * bytes_to_draw)) :: u32 in
        image_byte_loop put W x y_absolute input bytes_to_draw line (byte + 1)
          (image_pixel_loop put W x y_absolute bytes_to_draw byte input_byte 0 s)
      else s)"
  by pat_completeness auto
termination
  by (relation "measure (\<lambda>(put, W, x, ya, input, btd, line, byte, s). unat (btd - byte))")
    (auto simp flip: diff_diff_eq intro!: measure_unat)

declare image_byte_loop.simps [simp del]

text \<open>
  \<^verbatim>\<open>for (uint32_t line = 0; line < height; line++) {
     y_absolute = y + line;
     if (y_absolute >= SSD1306_H) break;
     ... }\<close>
\<close>

function image_line_loop ::
  "'s image_sink \<Rightarrow> u32 \<Rightarrow> u32 \<Rightarrow> u32 \<Rightarrow> u32 \<Rightarrow> (u32 \<Rightarrow> u8) \<Rightarrow> u32 \<Rightarrow> u32 \<Rightarrow> u32 \<Rightarrow> 's \<Rightarrow> 's" where
  "image_line_loop put W H x y input bytes_to_draw height line s =
     (if line < height then
        let y_absolute = y + line in
        if y_absolute \<ge> H then s
        else image_line_loop put W H x y input bytes_to_draw height (line + 1)
               (image_byte_loop put W x y_absolute input bytes_to_draw line 0 s)
      else s)"
  by pat_completeness auto
termination
  by (relation "measure (\<lambda>(put, W, H, x, y, input, btd, height, line, s). unat (height - line))")
    (auto simp flip: diff_diff_eq intro!: measure_unat)

declare image_line_loop.simps [simp del]

definition drawImage_gen ::
  "'s image_sink \<Rightarrow> u32 \<Rightarrow> u32 \<Rightarrow> u32 \<Rightarrow> u32 \<Rightarrow> (u32 \<Rightarrow> u8) \<Rightarrow> u32 \<Rightarrow> u32 \<Rightarrow> 's \<Rightarrow> 's" where
  "drawImage_gen put W H x y input width height s =
     (let bytes_to_draw = width div 8
      in image_line_loop put W H x y input bytes_to_draw height 0 s)"

definition fb_image_put :: "u32 \<Rightarrow> u32 \<Rightarrow> framebuffer option image_sink" where
  "fb_image_put W color_mode x_absolute y_absolute input_byte pixel s =
     (case s of None \<Rightarrow> None
      | Some buf \<Rightarrow> image_put W color_mode x_absolute y_absolute input_byte pixel buf)"

definition ssd1306_drawImage ::
  "u32 \<Rightarrow> u32 \<Rightarrow> u32 \<Rightarrow> u32 \<Rightarrow> (u32 \<Rightarrow> u8) \<Rightarrow> u32 \<Rightarrow> u32 \<Rightarrow> u32 \<Rightarrow> framebuffer
     \<Rightarrow> framebuffer option" where
  "ssd1306_drawImage W H x y input width height color_mode buf =
     drawImage_gen (fb_image_put W color_mode) W H x y input width height (Some buf)"

text \<open>The recording sink lists the writes of a call in order: destination column and row,
  the source byte and the bit of it that is used.\<close>

definition rec_image_put :: "(u32 \<times> u32 \<times> u32 \<times> u32) list image_sink" where
  "rec_image_put x_absolute y_absolute input_byte pixel calls =
     calls @ [(x_absolute, y_absolute, input_byte, pixel)]"

definition drawImage_writes ::
  "u32 \<Rightarrow> u32 \<Rightarrow> u32 \<Rightarrow> u32 \<Rightarrow> (u32 \<Rightarrow> u8) \<Rightarrow> u32 \<Rightarrow> u32 \<Rightarrow> (u32 \<times> u32 \<times> u32 \<times> u32) list" where
  "drawImage_writes W H x y input width height =
     drawImage_gen rec_image_put W H x y input width height []"

text \<open>
  The table of the six compositing modes, as the specification gives it: the new value
  of a destination pixel from the source bit and the old destination pixel. Mode 0 copies
  the source bit, mode 1 its inverse, mode 2 clears where the source bit is 0, mode 3 sets
  where it is 1, mode 4 sets where it is 0, mode 5 clears where it is 1; in the other
  cases, and for any other mode number, the pixel stays as it is.
\<close>

definition mode_effect :: "u32 \<Rightarrow> bool \<Rightarrow> bool \<Rightarrow> bool" where
  "mode_effect mode src dst =
     (if mode = 0 then src
      else if mode = 1 then \<not> src
      else if mode = 2 then (if src then dst else False)
      else if mode = 3 then (if src then True else dst)
      else if mode = 4 then (if src then dst else True)
      else if mode = 5 then (if src then False else dst)
      else dst)"

text \<open>
  For the proofs: the rows and the pixels of a byte-group that a call reaches before
  the \<^verbatim>\<open>break\<close>, the list of all writes of a call in loop order, and the effect of one
  write on the value of the pixel \<open>(x', y')\<close>.
\<close>

definition image_lines :: "u32 \<Rightarrow> u32 \<Rightarrow> u32 \<Rightarrow> u32 list" where
  "image_lines H y height = takeWhile (\<lambda>line. y + line < H) (map of_nat [0..<unat height])"

definition image_pixels :: "u32 \<Rightarrow> u32 \<Rightarrow> u32 \<Rightarrow> u32 \<Rightarrow> u32 list" where
  "image_pixels W x bytes_to_draw byte =
     takeWhile (\<lambda>pixel. x + 8 * (bytes_to_draw - byte) + pixel < W) (map of_nat [0..<8])"

definition image_group ::
  "u32 \<Rightarrow> u32 \<Rightarrow> u32 \<Rightarrow> (u32 \<Rightarrow> u8) \<Rightarrow> u32 \<Rightarrow> u32 \<Rightarrow> u32 \<Rightarrow> (u32 \<times> u32 \<times> u32 \<times> u32) list" where
  "image_group W x y input bytes_to_draw line byte =
     map (\<lambda>pixel. (x + 8 * (bytes_to_draw - byte) + pixel, y + line,
                    ucast (input (byte + line * bytes_to_draw)), pixel))
       (image_pixels W x bytes_to_draw byte)"

definition image_row ::
  "u32 \<Rightarrow> u32 \<Rightarrow> u32 \<Rightarrow> (u32 \<Rightarrow> u8) \<Rightarrow> u32 \<Rightarrow> u32 \<Rightarrow> (u32 \<times> u32 \<times> u32 \<times> u32) list" where
  "image_row W x y input bytes_to_draw line =
     concat (map (image_group W x y input bytes_to_draw line)
               (map of_nat [0..<unat bytes_to_draw]))"

definition image_write_list ::
  "u32 \<Rightarrow> u32 \<Rightarrow> u32 \<Rightarrow> u32 \<Rightarrow> (u32 \<Rightarrow> u8) \<Rightarrow> u32 \<Rightarrow> u32 \<Rightarrow> (u32 \<times> u32 \<times> u32 \<times> u32) list" where
  "image_write_list W H x y input width height =
     concat (map (image_row W x y input (width div 8)) (image_lines H y height))"

definition pixel_hit :: "u32 \<Rightarrow> u32 \<Rightarrow> u32 \<Rightarrow> u32 \<times> u32 \<times> u32 \<times> u32 \<Rightarrow> bool \<Rightarrow> bool" where
  "pixel_hit mode x' y' w v =
     (case w of (xa, ya, ib, p) \<Rightarrow>
        if xa = x' \<and> ya = y' then mode_effect mode (bit ib (unat p)) v else v)"

section \<open>Primitive rasterizer\<close>

text \<open>
  \<^verbatim>\<open>void ssd1306_drawFastHLine(uint32_t x, uint32_t y, uint32_t w, uint32_t color) {
     if((x >= SSD1306_W) || (y >= SSD1306_H)) return;
     if((x+w-1) >= SSD1306_W)  w = SSD1306_W-x;
     while (w--) ssd1306_drawPixel(x++, y, color); }\<close>
\<close>

function hline_loop :: "'s pixel_sink \<Rightarrow> u32 \<Rightarrow> u32 \<Rightarrow> u32 \<Rightarrow> u32 \<Rightarrow> 's \<Rightarrow> 's" where
  "hline_loop plot x y w color s =
     (if w = 0 then s else hline_loop plot (x + 1) y (w - 1) color (plot x y color s))"
  by pat_completeness auto
termination
  by (relation "measure (\<lambda>(plot, x, y, w, color, s). unat w)") (auto simp: measure_unat)

declare hline_loop.simps [simp del]

definition drawFastHLine_gen ::
  "'s pixel_sink \<Rightarrow> u32 \<Rightarrow> u32 \<Rightarrow> u32 \<Rightarrow> u32 \<Rightarrow> u32 \<Rightarrow> u32 \<Rightarrow> 's \<Rightarrow> 's" where
  "drawFastHLine_gen plot W H x y w color s =
     (if x \<ge> W \<or> y \<ge> H then s
      else let w' = (if x + w - 1 \<ge> W then W - x else w)
           in hline_loop plot x y w' color s)"

definition ssd1306_drawFastHLine ::
  "u32 \<Rightarrow> u32 \<Rightarrow> u32 \<Rightarrow> u32 \<Rightarrow> u32 \<Rightarrow> u32 \<Rightarrow> framebuffer \<Rightarrow> framebuffer option" where
  "ssd1306_drawFastHLine W H x y w color buf =
     drawFastHLine_gen (fb_pixel W H) W H x y w color (Some buf)"

text \<open>
  \<^verbatim>\<open>int gfx_abs(int x) { return (x<0) ? -x : x; }\<close>

  \<^verbatim>\<open>void gfx_swap(int *z0, int *z1) { uint16_t temp = *z0; *z0 = *z1; *z1 = temp; }\<close>

  The temporary is a \<^verbatim>\<open>uint16_t\<close>: the value that reaches \<^verbatim>\<open>*z1\<close> is \<^verbatim>\<open>*z0\<close> reduced
  modulo \<open>2^16\<close>. The result pair is the new \<open>(*z0, *z1)\<close>.
\<close>

definition gfx_abs :: "int \<Rightarrow> int" where
  "gfx_abs x = (if x < 0 then - x else x)"

definition gfx_swap :: "int \<Rightarrow> int \<Rightarrow> int \<times> int" where
  "gfx_swap z0 z1 = (let temp = z0 mod 65536 in (z1, temp))"

text \<open>C's integer division truncates towards zero.\<close>

definition c_div :: "int \<Rightarrow> int \<Rightarrow> int" where
  "c_div a b = sgn a * sgn b * (\<bar>a\<bar> div \<bar>b\<bar>)"

text \<open>
  The main loop of \<^verbatim>\<open>ssd1306_drawLine\<close>; an \<^verbatim>\<open>int\<close> argument reaches the \<^verbatim>\<open>uint32_t\<close>
  parameters of \<^verbatim>\<open>ssd1306_drawPixel\<close> reduced modulo \<open>2^32\<close>.

  \<^verbatim>\<open>for(x=x0;x<=x1;x++) {
     if(steep) ssd1306_drawPixel(y, x, color); else ssd1306_drawPixel(x, y, color);
     error = error - deltay;
     if(error < 0) { y = y + ystep; error = error + deltax; } }\<close>
\<close>

function line_loop ::
  "'s pixel_sink \<Rightarrow> bool \<Rightarrow> int \<Rightarrow> int \<Rightarrow> int \<Rightarrow> int \<Rightarrow> u32 \<Rightarrow> int \<Rightarrow> int \<Rightarrow> int \<Rightarrow> 's \<Rightarrow> 's" where
  "line_loop plot steep deltax deltay ystep x1 color x y error s =
     (if x \<le> x1 then
        let s' = (if steep then plot (word_of_int y) (word_of_int x) color s
                  else plot (word_of_int x) (word_of_int y) color s);
            error' = error - deltay
        in if error' < 0
           then line_loop plot steep deltax deltay ystep x1 color (x + 1) (y + ystep)
                  (error' + deltax) s'
           else line_loop plot steep deltax deltay ystep x1 color (x + 1) y error' s'
      else s)"
  by pat_completeness auto
termination
  by (relation "measure (\<lambda>(plot, steep, dx, dy, ystep, x1, color, x, y, error, s). nat (x1 + 1 - x))")
    auto

declare line_loop.simps [simp del]

definition drawLine_gen ::
  "'s pixel_sink \<Rightarrow> int \<Rightarrow> int \<Rightarrow> int \<Rightarrow> int \<Rightarrow> u32 \<Rightarrow> 's \<Rightarrow> 's" where
  "drawLine_gen plot x0 y0 x1 y1 color s =
     (let steep = (gfx_abs (y1 - y0) > gfx_abs (x1 - x0));
          (x0a, y0a) = (if steep then gfx_swap x0 y0 else (x0, y0));
          (x1a, y1a) = (if steep then gfx_swap x1 y1 else (x1, y1));
          low_high = (x0a > x1a);
          (x0b, x1b) = (if low_high then gfx_swap x0a x1a else (x0a, x1a));
          (y0b, y1b) = (if low_high then gfx_swap y0a y1a else (y0a, y1a));
          deltax = x1b - x0b;
          deltay = gfx_abs (y1b - y0b);
          error = c_div deltax 2;
          ystep = (if y0b < y1b then 1 else - 1)
      in line_loop plot steep deltax deltay ystep x1b color x0b y0b error s)"

definition ssd1306_drawLine ::
  "u32 \<Rightarrow> u32 \<Rightarrow> int \<Rightarrow> int \<Rightarrow> int \<Rightarrow> int \<Rightarrow> u32 \<Rightarrow> framebuffer \<Rightarrow> framebuffer option" where
  "ssd1306_drawLine W H x0 y0 x1 y1 color buf =
     drawLine_gen (fb_pixel W H) x0 y0 x1 y1 color (Some buf)"

definition drawLine_calls :: "int \<Rightarrow> int \<Rightarrow> int \<Rightarrow> int \<Rightarrow> u32 \<Rightarrow> (u32 \<times> u32 \<times> u32) list" where
  "drawLine_calls x0 y0 x1 y1 color = drawLine_gen rec_pixel x0 y0 x1 y1 color []"

text \<open>
  The classic midpoint line algorithm the specification refers to, written from its
  description: if the line is steep the roles of x and y are exchanged, if the start
  lies right of the end the endpoints are exchanged, and the loop steps x upwards with
  a running error term, moving y by one step when the term goes negative. Exchanging
  two values here loses nothing.
\<close>

function classic_loop ::
  "'s pixel_sink \<Rightarrow> bool \<Rightarrow> int \<Rightarrow> int \<Rightarrow> int \<Rightarrow> int \<Rightarrow> u32 \<Rightarrow> int \<Rightarrow> int \<Rightarrow> int \<Rightarrow> 's \<Rightarrow> 's" where
  "classic_loop plot steep dx dy ystep xend color x y err s =
     (if x \<le> xend then
        let s' = (if steep then plot (word_of_int y) (word_of_int x) color s
                  else plot (word_of_int x) (word_of_int y) color s)
        in if err - dy < 0
           then classic_loop plot steep dx dy ystep xend color (x + 1) (y + ystep) (err - dy + dx) s'
           else classic_loop plot steep dx dy ystep xend color (x + 1) y (err - dy) s'
      else s)"
  by pat_completeness auto
termination
  by (relation "measure (\<lambda>(plot, steep, dx, dy, ystep, xend, color, x, y, err, s). nat (xend + 1 - x))")
    auto

declare classic_loop.simps [simp del]

definition classic_line ::
  "'s pixel_sink \<Rightarrow> int \<Rightarrow> int \<Rightarrow> int \<Rightarrow> int \<Rightarrow> u32 \<Rightarrow> 's \<Rightarrow> 's" where
  "classic_line plot x0 y0 x1 y1 color s =
     (let steep = (\<bar>y1 - y0\<bar> > \<bar>x1 - x0\<bar>);
          (a0, b0, a1, b1) = (if steep then (y0, x0, y1, x1) else (x0, y0, x1, y1));
          (p0, q0, p1, q1) = (if a0 > a1 then (a1, b1, a0, b0) else (a0, b0, a1, b1));
          dx = p1 - p0;
          dy = \<bar>q1 - q0\<bar>
      in classic_loop plot steep dx dy (if q0 < q1 then 1 else - 1) p1 color p0 q0 (dx div 2) s)"

definition classic_line_calls :: "int \<Rightarrow> int \<Rightarrow> int \<Rightarrow> int \<Rightarrow> u32 \<Rightarrow> (u32 \<times> u32 \<times> u32) list" where
  "classic_line_calls x0 y0 x1 y1 color = classic_line rec_pixel x0 y0 x1 y1 color []"

text \<open>
  The circle routines compute on \<^verbatim>\<open>int\<close>, which has 32 bits on the target. An \<^verbatim>\<open>int\<close>
  is a 32-bit word read as two's complement (\<open>sint\<close>): \<open>+\<close>, \<open>-\<close> and \<open>*\<close> wrap, the
  comparisons are the signed ones (\<open>\<le>s\<close> and \<open><s\<close>), and an \<^verbatim>\<open>int\<close> argument reaches a
  \<^verbatim>\<open>uint32_t\<close> parameter with its bits unchanged.

  The two routines share one loop. Its state is \<open>(x_pos, y_pos, err)\<close>; one pass first
  draws, then updates the state:

  \<^verbatim>\<open>e2 = err;
  if (e2 <= y_pos) {
      err += ++y_pos * 2 + 1;
      if(-x_pos == y_pos && e2 <= x_pos) e2 = 0;
  }
  if (e2 > x_pos) err += ++x_pos * 2 + 1;\<close>
\<close>

type_synonym s32 = "32 word"

definition circle_step :: "s32 \<times> s32 \<times> s32 \<Rightarrow> s32 \<times> s32 \<times> s32" where
  "circle_step st =
     (case st of (x_pos, y_pos, err) \<Rightarrow>
        let e2 = err;
            (y_pos1, err1, e2a) =
               (if e2 \<le>s y_pos
                then let y' = y_pos + 1; err' = err + (y' * 2 + 1)
                     in (y', err', if - x_pos = y' \<and> e2 \<le>s x_pos then 0 else e2)
                else (y_pos, err, e2));
            (x_pos1, err2) =
               (if x_pos <s e2a then (x_pos + 1, err1 + ((x_pos + 1) * 2 + 1))
                else (x_pos, err1))
        in (x_pos1, y_pos1, err2))"

text \<open>
  \<^verbatim>\<open>do { ... } while (x_pos <= 0);\<close> Nothing in the loop itself bounds the number of
  passes, so the loop is a partial function: \<open>None\<close> is a loop that never ends.
\<close>

partial_function (option) circle_loop ::
  "(s32 \<Rightarrow> s32 \<Rightarrow> 's \<Rightarrow> 's) \<Rightarrow> s32 \<times> s32 \<times> s32 \<Rightarrow> 's \<Rightarrow> 's option" where
  "circle_loop body st s =
     (let s' = body (fst st) (fst (snd st)) s;
          st' = circle_step st
      in if fst st' \<le>s 0 then circle_loop body st' s' else Some s')"

text \<open>
  For the termination argument: the invariant of the loop for radius \<open>r\<close>, on the
  values of the state as integers. The point stays in \<open>- r \<le> x_pos \<le> 0 \<le> y_pos \<le> r\<close>,
  the error term is \<open>err = (x_pos + 1)\<^sup>2 + (y_pos + 1)\<^sup>2 - r\<^sup>2\<close> as an integer equation
  (it has not wrapped) and lies between \<open>- 3 r\<close> and \<open>3 r + 4 + x_pos\<close>. The quantity
  that decreases with every pass is \<open>(1 - x_pos) + (r - y_pos)\<close>.
\<close>

definition circle_inv :: "int \<Rightarrow> s32 \<times> s32 \<times> s32 \<Rightarrow> bool" where
  "circle_inv r st \<longleftrightarrow>
     (case st of (x_pos, y_pos, err) \<Rightarrow>
        - r \<le> sint x_pos \<and> sint x_pos \<le> 0 \<and> 0 \<le> sint y_pos \<and> sint y_pos \<le> r \<and>
        sint err = (sint x_pos + 1) * (sint x_pos + 1) + (sint y_pos + 1) * (sint y_pos + 1) - r * r \<and>
        - (3 * r) \<le> sint err \<and> sint err \<le> 3 * r + 4 + sint x_pos)"

definition circle_measure :: "int \<Rightarrow> s32 \<times> s32 \<times> s32 \<Rightarrow> nat" where
  "circle_measure r st =
     (case st of (x_pos, y_pos, err) \<Rightarrow> nat (1 - sint x_pos) + nat (r - sint y_pos))"

text \<open>
  The body of a pass of \<^verbatim>\<open>ssd1306_drawCircle\<close>:

  \<^verbatim>\<open>ssd1306_drawPixel(x - x_pos, y + y_pos, color);
  ssd1306_drawPixel(x + x_pos, y + y_pos, color);
  ssd1306_drawPixel(x + x_pos, y - y_pos, color);
  ssd1306_drawPixel(x - x_pos, y - y_pos, color);\<close>

  \<^verbatim>\<open>ssd1306_fillCircle\<close> adds

  \<^verbatim>\<open>ssd1306_drawFastHLine(x + x_pos, y + y_pos, 2 * (-x_pos) + 1, color);
  ssd1306_drawFastHLine(x + x_pos, y - y_pos, 2 * (-x_pos) + 1, color);\<close>

  Both start from \<^verbatim>\<open>x_pos = -radius\<close>, \<^verbatim>\<open>y_pos = 0\<close>, \<^verbatim>\<open>err = 2 - 2 * radius\<close>.
\<close>

definition circle_points :: "'s pixel_sink \<Rightarrow> s32 \<Rightarrow> s32 \<Rightarrow> s32 \<Rightarrow> s32 \<Rightarrow> s32 \<Rightarrow> 's \<Rightarrow> 's" where
  "circle_points plot x y color x_pos y_pos s =
     (let s1 = plot (x - x_pos) (y + y_pos) color s;
          s2 = plot (x + x_pos) (y + y_pos) color s1;
          s3 = plot (x + x_pos) (y - y_pos) color s2
      in plot (x - x_pos) (y - y_pos) color s3)"

definition drawCircle_gen :: "'s pixel_sink \<Rightarrow> s32 \<Rightarrow> s32 \<Rightarrow> s32 \<Rightarrow> s32 \<Rightarrow> 's \<Rightarrow> 's option" where
  "drawCircle_gen plot x y radius color s =
     circle_loop (circle_points plot x y color) (- radius, 0, 2 - 2 * radius) s"

definition fill_body ::
  "'s pixel_sink \<Rightarrow> u32 \<Rightarrow> u32 \<Rightarrow> s32 \<Rightarrow> s32 \<Rightarrow> s32 \<Rightarrow> s32 \<Rightarrow> s32 \<Rightarrow> 's \<Rightarrow> 's" where
  "fill_body plot W H x y color x_pos y_pos s =
     (let s4 = circle_points plot x y color x_pos y_pos s;
          s5 = drawFastHLine_gen plot W H (x + x_pos) (y + y_pos) (2 * (- x_pos) + 1) color s4
      in drawFastHLine_gen plot W H (x + x_pos) (y - y_pos) (2 * (- x_pos) + 1) color s5)"

definition fillCircle_gen ::
  "'s pixel_sink \<Rightarrow> u32 \<Rightarrow> u32 \<Rightarrow> s32 \<Rightarrow> s32 \<Rightarrow> s32 \<Rightarrow> s32 \<Rightarrow> 's \<Rightarrow> 's option" where
  "fillCircle_gen plot W H x y radius color s =
     circle_loop (fill_body plot W H x y color) (- radius, 0, 2 - 2 * radius) s"

text \<open>On the framebuffer the outer \<open>option\<close> is the loop (\<open>None\<close>: it never returns), the
  inner one the array (\<open>None\<close>: a write left it).\<close>

definition ssd1306_drawCircle ::
  "u32 \<Rightarrow> u32 \<Rightarrow> s32 \<Rightarrow> s32 \<Rightarrow> s32 \<Rightarrow> s32 \<Rightarrow> framebuffer \<Rightarrow> framebuffer option option" where
  "ssd1306_drawCircle W H x y radius color buf =
     drawCircle_gen (fb_pixel W H) x y radius color (Some buf)"

definition ssd1306_fillCircle ::
  "u32 \<Rightarrow> u32 \<Rightarrow> s32 \<Rightarrow> s32 \<Rightarrow> s32 \<Rightarrow> s32 \<Rightarrow> framebuffer \<Rightarrow> framebuffer option option" where
  "ssd1306_fillCircle W H x y radius color buf =
     fillCircle_gen (fb_pixel W H) W H x y radius color (Some buf)"

section \<open>Glyph renderer\<close>

text \<open>
  The font table \<^verbatim>\<open>fontdata\<close> comes from \<^verbatim>\<open>font_8x8.h\<close>, which is not part of the sources
  at hand; it is a parameter. \<^verbatim>\<open>ssd1306_drawchar\<close> walks 8 rows \<open>i\<close> and 8 columns \<open>j\<close>;
  the row byte \<open>d\<close> is shifted left after each column.

  \<^verbatim>\<open>if(d&0x80) col = color; else col = (~color)&1;
  ssd1306_drawPixel(x+j, y+i, col);
  d <<= 1;\<close>
\<close>

fun drawchar_cols :: "'s pixel_sink \<Rightarrow> u8 \<Rightarrow> u32 \<Rightarrow> u8 \<Rightarrow> u8 \<Rightarrow> nat list \<Rightarrow> 's \<Rightarrow> 's" where
  "drawchar_cols plot x yi color d [] s = s"
| "drawchar_cols plot x yi color d (j # js) s =
     (let col = (if d AND 0x80 \<noteq> 0 then ucast color else NOT (ucast color) AND 1) :: u32
      in drawchar_cols plot x yi color (push_bit 1 d) js (plot (ucast x + of_nat j) yi col s))"

definition drawchar_gen ::
  "'s pixel_sink \<Rightarrow> (nat \<Rightarrow> u8) \<Rightarrow> u8 \<Rightarrow> u8 \<Rightarrow> u8 \<Rightarrow> u8 \<Rightarrow> 's \<Rightarrow> 's" where
  "drawchar_gen plot fontdata x y chr color s =
     fold (\<lambda>i. drawchar_cols plot x (ucast y + of_nat i) color
                  (fontdata (unat chr * 8 + i)) [0..<8])
       [0..<8] s"

definition ssd1306_drawchar ::
  "u32 \<Rightarrow> u32 \<Rightarrow> (nat \<Rightarrow> u8) \<Rightarrow> u8 \<Rightarrow> u8 \<Rightarrow> u8 \<Rightarrow> u8 \<Rightarrow> framebuffer option \<Rightarrow> framebuffer option" where
  "ssd1306_drawchar W H fontdata x y chr color s =
     drawchar_gen (fb_pixel W H) fontdata x y chr color s"

text \<open>
  \<^verbatim>\<open>while((c=*str++)) { ssd1306_drawchar(x, y, c, color); x += 8; if(x>120) break; }\<close>

  The string is the list of its bytes before the terminating NUL; \<open>x\<close> is a \<^verbatim>\<open>uint8_t\<close>.
  The glyph operation is a parameter \<open>emit\<close>, called with the cursor and the character.
\<close>

fun drawstr_loop :: "(u8 \<Rightarrow> u8 \<Rightarrow> 's \<Rightarrow> 's) \<Rightarrow> u8 \<Rightarrow> u8 list \<Rightarrow> 's \<Rightarrow> 's" where
  "drawstr_loop emit x [] s = s"
| "drawstr_loop emit x (c # str) s =
     (if c = 0 then s
      else let s' = emit x c s; x' = x + 8
           in if x' > 120 then s' else drawstr_loop emit x' str s')"

definition ssd1306_drawstr ::
  "u32 \<Rightarrow> u32 \<Rightarrow> (nat \<Rightarrow> u8) \<Rightarrow> u8 \<Rightarrow> u8 \<Rightarrow> u8 list \<Rightarrow> u8 \<Rightarrow> framebuffer \<Rightarrow> framebuffer option" where
  "ssd1306_drawstr W H fontdata x y str color buf =
     drawstr_loop (\<lambda>x c. ssd1306_drawchar W H fontdata x y c color) x str (Some buf)"

text \<open>The glyphs a call emits, in order: cursor column and character.\<close>

definition drawstr_glyphs :: "u8 \<Rightarrow> u8 list \<Rightarrow> (u8 \<times> u8) list" where
  "drawstr_glyphs x str = drawstr_loop (\<lambda>x c calls. calls @ [(x, c)]) x str []"

section \<open>Properties\<close>

subsection \<open>Addressing\<close>

lemma unat_and7: "unat ((y::u32) AND 7) = unat y mod 8"
proof -
  have "(7::u32) = mask 3" by (simp add: mask_eq_exp_minus_1)
  then have "y AND 7 = take_bit 3 y" by (simp add: take_bit_eq_mask)
  also have "\<dots> = y mod 8" by (simp add: take_bit_eq_mod)
  finally show ?thesis by (simp add: unat_mod)
qed

lemma unat_div8: "unat ((y::u32) div 8) = unat y div 8"
  by (simp add: unat_div)

lemma pixel_addr:
  assumes "valid_geometry W H" "x < W" "y < H"
  shows "unat (x + W * (y div 8)) = unat x + unat W * (unat y div 8)"
    and "unat x + unat W * (unat y div 8) < buffer_size W H"
proof -
  from assms have g: "0 < unat W" "8 dvd unat H" "unat W * unat H < 2 ^ 32"
    by (simp_all add: valid_geometry_def)
  from assms have xw: "unat x < unat W" and yh: "unat y < unat H"
    by (simp_all add: word_less_nat_alt)
  from g(2) obtain k where k: "unat H = 8 * k" by (auto simp: dvd_def)
  from yh k have yk: "unat y div 8 < k" by simp
  then have "unat y div 8 + 1 \<le> k" by simp
  then have "unat W * (unat y div 8 + 1) \<le> unat W * k" by (rule mult_le_mono2)
  then have le: "unat W * (unat y div 8) + unat W \<le> unat W * k" by (simp add: algebra_simps)
  have bs: "buffer_size W H = unat W * k" by (simp add: buffer_size_def k)
  from le xw show b: "unat x + unat W * (unat y div 8) < buffer_size W H"
    by (simp add: bs)
  have "unat W * k \<le> unat W * unat H" by (rule mult_le_mono2) (simp add: k)
  moreover from b bs have "unat x + unat W * (unat y div 8) < unat W * k" by simp
  ultimately have lt: "unat x + unat W * (unat y div 8) < 2 ^ 32" using g(3) by linarith
  then have lt2: "unat W * (unat y div 8) < 2 ^ 32" by simp
  have m: "unat (W * (y div 8)) = unat W * (unat y div 8)"
    using lt2 by (simp add: unat_mult_lem[THEN iffD1] unat_div8)
  show "unat (x + W * (y div 8)) = unat x + unat W * (unat y div 8)"
    using lt m by (simp add: unat_add_lem[THEN iffD1])
qed

lemma addr_inj:
  assumes "unat x < w" "unat x' < w"
    and "unat x + w * (unat y div 8) = unat x' + w * (unat y' div 8)"
    and "unat y mod 8 = unat y' mod 8"
  shows "x = x' \<and> y = (y'::u32)"
proof -
  have "(unat x + w * (unat y div 8)) mod w = unat x" using assms(1) by simp
  moreover have "(unat x' + w * (unat y' div 8)) mod w = unat x'" using assms(2) by simp
  ultimately have xx: "unat x = unat x'" using assms(3) by simp
  with assms(3) have "w * (unat y div 8) = w * (unat y' div 8)" by simp
  moreover have "0 < w" using assms(1) by simp
  ultimately have "unat y div 8 = unat y' div 8" by simp
  with assms(4) have "unat y = unat y'" by (metis div_mult_mod_eq)
  with xx show ?thesis by (simp add: word_unat_eq_iff)
qed

subsection \<open>Pixel accessor\<close>

lemma drawPixel_bits:
  assumes "valid_geometry W H" "length buf = buffer_size W H" "x < W" "y < H"
  shows "\<exists>buf'. ssd1306_drawPixel W H x y c buf = Some buf' \<and> length buf' = length buf \<and>
     (\<forall>i<length buf. \<forall>n<8. bit (buf' ! i) n =
        (if i = unat x + unat W * (unat y div 8) \<and> n = unat y mod 8 then c \<noteq> 0
         else bit (buf ! i) n))"
proof -
  note a = pixel_addr[OF assms(1,3,4)]
  from assms(3,4) have nx: "\<not> W \<le> x" "\<not> H \<le> y" by simp_all
  show ?thesis
    using a assms(2) nx
    by (auto simp: ssd1306_drawPixel_def buf_update_def Let_def unat_and7 nth_list_update bit_simps)
qed

lemma xorPixel_bits:
  assumes "valid_geometry W H" "length buf = buffer_size W H" "x < W" "y < H"
  shows "\<exists>buf'. ssd1306_xorPixel W H x y buf = Some buf' \<and> length buf' = length buf \<and>
     (\<forall>i<length buf. \<forall>n<8. bit (buf' ! i) n =
        (if i = unat x + unat W * (unat y div 8) \<and> n = unat y mod 8 then \<not> bit (buf ! i) n
         else bit (buf ! i) n))"
proof -
  note a = pixel_addr[OF assms(1,3,4)]
  from assms(3,4) have nx: "\<not> W \<le> x" "\<not> H \<le> y" by simp_all
  show ?thesis
    using a assms(2) nx
    by (auto simp: ssd1306_xorPixel_def buf_update_def Let_def unat_and7 nth_list_update bit_simps)
qed

lemma pixel_clipped:
  "W \<le> x \<or> H \<le> y \<Longrightarrow> ssd1306_drawPixel W H x y c buf = Some buf"
  "W \<le> x \<or> H \<le> y \<Longrightarrow> ssd1306_xorPixel W H x y buf = Some buf"
  by (auto simp: ssd1306_drawPixel_def ssd1306_xorPixel_def)

text \<open>
  Claim C4. On a framebuffer of the configured size, for \<open>x < W\<close> and \<open>y < H\<close>,
  \<^verbatim>\<open>ssd1306_drawPixel\<close> makes bit \<open>y & 7\<close> of byte \<open>x + W * (y / 8)\<close> equal to the colour
  (set for a nonzero colour, clear for zero) and changes no other bit of the buffer, and
  \<^verbatim>\<open>ssd1306_xorPixel\<close> inverts that bit and changes no other; for \<open>x \<ge> W\<close> or \<open>y \<ge> H\<close>
  both return the buffer as it was.
\<close>

theorem pixel_accessor_spec:
  assumes "valid_geometry W H" and "length buf = buffer_size W H"
  shows "(x < W \<and> y < H \<longrightarrow>
           (\<exists>buf'. ssd1306_drawPixel W H x y c buf = Some buf' \<and> length buf' = length buf \<and>
              (\<forall>i<length buf. \<forall>n<8. bit (buf' ! i) n =
                 (if i = unat (x + W * (y div 8)) \<and> n = unat (y AND 7) then c \<noteq> 0
                  else bit (buf ! i) n))) \<and>
           (\<exists>buf'. ssd1306_xorPixel W H x y buf = Some buf' \<and> length buf' = length buf \<and>
              (\<forall>i<length buf. \<forall>n<8. bit (buf' ! i) n =
                 (if i = unat (x + W * (y div 8)) \<and> n = unat (y AND 7) then \<not> bit (buf ! i) n
                  else bit (buf ! i) n)))) \<and>
         (W \<le> x \<or> H \<le> y \<longrightarrow>
            ssd1306_drawPixel W H x y c buf = Some buf \<and> ssd1306_xorPixel W H x y buf = Some buf)"
proof (intro conjI impI)
  assume xy: "x < W \<and> y < H"
  then have a: "unat (x + W * (y div 8)) = unat x + unat W * (unat y div 8)"
    using pixel_addr(1) [OF assms(1)] by simp
  show "\<exists>buf'. ssd1306_drawPixel W H x y c buf = Some buf' \<and> length buf' = length buf \<and>
              (\<forall>i<length buf. \<forall>n<8. bit (buf' ! i) n =
                 (if i = unat (x + W * (y div 8)) \<and> n = unat (y AND 7) then c \<noteq> 0
                  else bit (buf ! i) n))"
    using drawPixel_bits [OF assms, of x y c] xy by (simp add: a unat_and7)
  show "\<exists>buf'. ssd1306_xorPixel W H x y buf = Some buf' \<and> length buf' = length buf \<and>
              (\<forall>i<length buf. \<forall>n<8. bit (buf' ! i) n =
                 (if i = unat (x + W * (y div 8)) \<and> n = unat (y AND 7) then \<not> bit (buf ! i) n
                  else bit (buf ! i) n))"
    using xorPixel_bits [OF assms, of x y] xy by (simp add: a unat_and7)
next
  assume "W \<le> x \<or> H \<le> y"
  then show "ssd1306_drawPixel W H x y c buf = Some buf" by (rule pixel_clipped)
next
  assume "W \<le> x \<or> H \<le> y"
  then show "ssd1306_xorPixel W H x y buf = Some buf" by (rule pixel_clipped)
qed

theorem pixel_accessor_spec_witness:
  "valid_geometry 128 64 \<and> length (replicate 1024 (0::u8)) = buffer_size 128 64 \<and>
   (\<exists>buf'. ssd1306_drawPixel 128 64 5 10 1 (replicate 1024 0) = Some buf' \<and>
      bit (buf' ! 133) 2 \<and> \<not> bit (buf' ! 133) 3 \<and> \<not> bit (buf' ! 134) 2) \<and>
   ssd1306_xorPixel 128 64 128 10 (replicate 1024 0) = Some (replicate 1024 0)"
proof -
  have g: "valid_geometry 128 64" by (simp add: valid_geometry_def)
  have l: "length (replicate 1024 (0::u8)) = buffer_size 128 64" by (simp add: buffer_size_def)
  note t = pixel_accessor_spec [OF g l]
  from t [of 5 10 1] obtain buf' where
    b: "ssd1306_drawPixel 128 64 5 10 1 (replicate 1024 0) = Some buf'"
    and bits: "\<forall>i<1024. \<forall>n<8. bit (buf' ! i) n =
                 (if i = unat (5 + 128 * (10 div 8) :: u32) \<and> n = unat (10 AND 7 :: u32) then True
                  else bit (replicate 1024 (0::u8) ! i) n)"
    by auto
  have e: "unat (5 + 128 * (10 div 8) :: u32) = 133" "unat (10 AND 7 :: u32) = 2" by simp_all
  from bits have "bit (buf' ! 133) 2" "\<not> bit (buf' ! 133) 3" "\<not> bit (buf' ! 134) 2"
    unfolding e by simp_all
  with b g l t [of 128 10] show ?thesis by simp
qed

subsection \<open>Transfer engine\<close>

lemma mem_read_append: "mem_read buf i (a + b) = mem_read buf i a @ mem_read buf (i + a) b"
proof -
  have "[i..<i + (a + b)] = [i..<i + a] @ [i + a..<i + (a + b)]"
    using upt_add_eq_append [of i "i + a" b] by (simp add: add.assoc)
  then show ?thesis by (simp add: mem_read_def add.assoc)
qed

lemma concat_mem_read:
  "concat (map (\<lambda>j. mem_read buf (32 * j) 32) [0..<m]) = mem_read buf 0 (32 * m)"
proof (induction m)
  case 0
  show ?case by (simp add: mem_read_def)
next
  case (Suc m)
  have "mem_read buf 0 (32 * Suc m) = mem_read buf 0 (32 * m) @ mem_read buf (32 * m) 32"
    using mem_read_append [of buf 0 "32 * m" 32] by (simp only: mult_Suc_right add.commute add_0)
  with Suc show ?case
    by (simp only: upt_Suc_append [OF le0] map_append concat_append list.map concat.simps append_Nil2)
qed

lemma take_mem_read: "length buf \<le> n \<Longrightarrow> take (length buf) (mem_read buf 0 n) = map Some buf"
proof -
  assume le: "length buf \<le> n"
  have "take (length buf) (mem_read buf 0 n)
      = map (\<lambda>k. if k < length buf then Some (buf ! k) else None) [0..<length buf]"
    using le by (simp add: mem_read_def take_map)
  also have "\<dots> = map Some buf" by (rule nth_equalityI) simp_all
  finally show ?thesis .
qed

lemma packet_shift:
  "map (\<lambda>j. Some 0x40 # mem_read buf (i + 32 * j) 32) [0..<Suc m]
     = (Some 0x40 # mem_read buf i 32)
       # map (\<lambda>j. Some 0x40 # mem_read buf (i + 32 + 32 * j) 32) [0..<m]"
proof -
  have "[0..<Suc m] = 0 # map Suc [0..<m]"
    by (simp only: map_Suc_upt upt_conv_Cons [OF zero_less_Suc])
  then show ?thesis by (simp add: comp_def add.assoc del: upt_Suc)
qed

lemma ceil_step: "i < (n::nat) \<Longrightarrow> (n - i + 31) div 32 = Suc ((n - (i + 32) + 31) div 32)"
proof (cases "i + 32 \<le> n")
  case True
  assume "i < n"
  from True have "n - i + 31 = (n - (i + 32) + 31) + 32" by simp
  then show ?thesis by (simp only: div_add_self2)
next
  case False
  assume "i < n"
  with False have "n - (i + 32) = 0" "32 \<le> n - i + 31" "n - i + 31 < 64" by simp_all
  then show ?thesis by (simp add: div_nat_eqI)
qed

lemma refresh_loop_closed:
  "refresh_loop buf i log =
     log @ map (\<lambda>j. Some 0x40 # mem_read buf (i + 32 * j) 32) [0..<(length buf - i + 31) div 32]"
proof (induction buf i log rule: refresh_loop.induct)
  case (1 buf i log)
  show ?case
  proof (cases "i < length buf")
    case False
    then show ?thesis by (subst refresh_loop.simps) simp
  next
    case True
    then have n: "(length buf - i + 31) div 32 = Suc ((length buf - (i + 32) + 31) div 32)"
      by (rule ceil_step)
    have "refresh_loop buf i log
        = refresh_loop buf (i + 32) (log @ [Some 0x40 # mem_read buf i 32])"
      using True by (subst refresh_loop.simps) (simp add: ssd1306_data_def SSD1306_PSZ_def)
    also have "\<dots> = (log @ [Some 0x40 # mem_read buf i 32])
        @ map (\<lambda>j. Some 0x40 # mem_read buf (i + 32 + 32 * j) 32)
            [0..<(length buf - (i + 32) + 31) div 32]"
      using "1.IH" [OF True] by (simp add: ssd1306_data_def SSD1306_PSZ_def)
    finally show ?thesis
      by (simp only: n packet_shift append_assoc append_Cons append_Nil)
  qed
qed

lemma ssd1306_refresh_closed:
  "ssd1306_refresh W OFFSET buf log =
     log @ refresh_commands W OFFSET
         @ map (\<lambda>j. Some 0x40 # mem_read buf (32 * j) 32) [0..<(length buf + 31) div 32]"
  by (simp add: ssd1306_refresh_def ssd1306_cmd_def refresh_loop_closed refresh_commands_def
      SSD1306_COLUMNADDR_def SSD1306_PAGEADDR_def)

lemma refresh_parts:
  "take 6 (ssd1306_refresh W OFFSET buf []) = refresh_commands W OFFSET"
  "drop 6 (ssd1306_refresh W OFFSET buf [])
     = map (\<lambda>j. Some 0x40 # mem_read buf (32 * j) 32) [0..<(length buf + 31) div 32]"
  "filter is_command (ssd1306_refresh W OFFSET buf []) = refresh_commands W OFFSET"
  "filter is_data (ssd1306_refresh W OFFSET buf [])
     = map (\<lambda>j. Some 0x40 # mem_read buf (32 * j) 32) [0..<(length buf + 31) div 32]"
  by (simp_all add: ssd1306_refresh_closed refresh_commands_def is_command_def is_data_def
      filter_map comp_def)

lemma refresh_payload:
  "concat (map payload (drop 6 (ssd1306_refresh W OFFSET buf [])))
     = mem_read buf 0 (32 * ((length buf + 31) div 32))"
  by (simp add: refresh_parts(2) payload_def comp_def concat_mem_read)

text \<open>
  Claim C1, as amended. Against a mock transport \<^verbatim>\<open>ssd1306_refresh\<close> first sends six
  command writes (column-address command 0x21 with its two arguments, page-address command
  0x22 with its two arguments), each a control byte 0x00 and one command byte, and then
  \<open>ceil(bufferSize / SSD1306_PSZ)\<close> data packets, each starting with the marker 0x40.
  The first \<open>bufferSize\<close> bytes of the concatenated payloads are the framebuffer in its
  original order, and when \<open>SSD1306_PSZ\<close> divides the buffer size the concatenated
  payloads are exactly the framebuffer.
\<close>

theorem refresh_transfer:
  "filter is_command (ssd1306_refresh W OFFSET buf []) = refresh_commands W OFFSET \<and>
   take 6 (ssd1306_refresh W OFFSET buf []) = refresh_commands W OFFSET \<and>
   length (refresh_commands W OFFSET) = 6 \<and>
   filter is_data (ssd1306_refresh W OFFSET buf []) = drop 6 (ssd1306_refresh W OFFSET buf []) \<and>
   length (drop 6 (ssd1306_refresh W OFFSET buf []))
     = (length buf + SSD1306_PSZ - 1) div SSD1306_PSZ \<and>
   take (length buf) (concat (map payload (drop 6 (ssd1306_refresh W OFFSET buf []))))
     = map Some buf \<and>
   (SSD1306_PSZ dvd length buf \<longrightarrow>
      concat (map payload (drop 6 (ssd1306_refresh W OFFSET buf []))) = map Some buf)"
proof -
  have le: "length buf \<le> 32 * ((length buf + 31) div 32)"
  proof -
    have "length buf + 31 = 32 * ((length buf + 31) div 32) + (length buf + 31) mod 32"
      by simp
    moreover have "(length buf + 31) mod 32 < 32" by simp
    ultimately show ?thesis by linarith
  qed
  have d: "32 * ((length buf + 31) div 32) = length buf" if "32 dvd length buf"
  proof -
    from that obtain k where k: "length buf = 32 * k" by (auto simp: dvd_def)
    have "(32 * k + 31) div 32 = k" by simp
    then show ?thesis by (simp add: k)
  qed
  have full: "mem_read buf 0 (length buf) = map Some buf"
    using take_mem_read [of buf "length buf"] by (simp add: mem_read_def)
  have c5: "length (drop 6 (ssd1306_refresh W OFFSET buf []))
     = (length buf + SSD1306_PSZ - 1) div SSD1306_PSZ"
    by (simp add: refresh_parts(2) SSD1306_PSZ_def)
  have c6: "take (length buf) (concat (map payload (drop 6 (ssd1306_refresh W OFFSET buf []))))
     = map Some buf"
    by (simp only: refresh_payload take_mem_read [OF le])
  have c7: "SSD1306_PSZ dvd length buf \<longrightarrow>
      concat (map payload (drop 6 (ssd1306_refresh W OFFSET buf []))) = map Some buf"
    by (simp add: refresh_payload d full SSD1306_PSZ_def)
  have c3: "length (refresh_commands W OFFSET) = 6" by (simp add: refresh_commands_def)
  have c4: "filter is_data (ssd1306_refresh W OFFSET buf []) = drop 6 (ssd1306_refresh W OFFSET buf [])"
    by (simp only: refresh_parts)
  from refresh_parts(3) refresh_parts(1) c3 c4 c5 c6 c7 show ?thesis by blast
qed

theorem refresh_transfer_witness:
  "SSD1306_PSZ dvd length (replicate 64 (0::u8)) \<and>
   concat (map payload (drop 6 (ssd1306_refresh 128 0 (replicate 64 0) [])))
     = map Some (replicate 64 (0::u8))"
proof -
  have "SSD1306_PSZ dvd length (replicate 64 (0::u8))" by (simp add: SSD1306_PSZ_def)
  with refresh_transfer [of 128 0 "replicate 64 0"] show ?thesis by blast
qed

text \<open>
  The claim as stated fails on the 72x40 geometry (\<open>OFFSET = 28\<close>, a buffer of 360
  bytes): the transport sees six command writes, not four, and the last of the twelve
  packets carries 32 payload bytes, of which the last 24 lie beyond the 360-byte array,
  where the claim has a final packet of \<open>360 mod 32 = 8\<close> bytes.
\<close>

theorem refresh_transfer_counterexample:
  "length (filter is_command (ssd1306_refresh 72 28 (replicate 360 0) [])) = 6 \<and>
   length (filter is_data (ssd1306_refresh 72 28 (replicate 360 0) [])) = 12 \<and>
   length (replicate 360 (0::u8)) mod SSD1306_PSZ = 8 \<and>
   payload (last (ssd1306_refresh 72 28 (replicate 360 0) []))
     = replicate 8 (Some 0) @ replicate 24 None"
proof -
  have up: "[0..<12] = [0, 1, 2, 3, 4, 5, 6, 7, 8, 9, 10, Suc 10]"
    by (simp add: upt_rec)
  have m: "mem_read (replicate 360 (0::u8)) 352 32 = replicate 8 (Some 0) @ replicate 24 None"
    unfolding mem_read_def by (simp add: eval_nat_numeral)
  show ?thesis
    by (simp add: ssd1306_refresh_closed refresh_commands_def is_command_def is_data_def
        payload_def SSD1306_PSZ_def up m filter_map comp_def del: upt_Suc)
qed

subsection \<open>Pixels of the framebuffer\<close>

lemma drawPixel_pixel_at:
  assumes "valid_geometry W H" "length buf = buffer_size W H"
  shows "\<exists>buf'. ssd1306_drawPixel W H x y c buf = Some buf' \<and> length buf' = length buf \<and>
     (\<forall>x' y'. x' < W \<longrightarrow> y' < H \<longrightarrow>
        pixel_at W buf' x' y' = (if x' = x \<and> y' = y then c \<noteq> 0 else pixel_at W buf x' y'))"
proof (cases "x < W \<and> y < H")
  case False
  then have "ssd1306_drawPixel W H x y c buf = Some buf"
    by (auto simp: ssd1306_drawPixel_def)
  with False show ?thesis by auto
next
  case True
  then have x: "x < W" and y: "y < H" by simp_all
  from drawPixel_bits [OF assms x y, of c] obtain buf' where
    s: "ssd1306_drawPixel W H x y c buf = Some buf'" and l: "length buf' = length buf"
    and b: "\<And>i n. i < length buf \<Longrightarrow> n < 8 \<Longrightarrow> bit (buf' ! i) n =
        (if i = unat x + unat W * (unat y div 8) \<and> n = unat y mod 8 then c \<noteq> 0
         else bit (buf ! i) n)"
    by blast
  have "pixel_at W buf' x' y' = (if x' = x \<and> y' = y then c \<noteq> 0 else pixel_at W buf x' y')"
    if x': "x' < W" and y': "y' < H" for x' y'
  proof -
    have i: "unat x' + unat W * (unat y' div 8) < length buf"
      using pixel_addr(2) [OF assms(1) x' y'] assms(2) by simp
    have n: "unat y' mod 8 < 8" by simp
    have e: "(unat x' + unat W * (unat y' div 8) = unat x + unat W * (unat y div 8)
          \<and> unat y' mod 8 = unat y mod 8) \<longleftrightarrow> (x' = x \<and> y' = y)"
      using addr_inj [of x' "unat W" x y' y] x x' by (auto simp: word_less_nat_alt)
    show ?thesis unfolding pixel_at_def b [OF i n] e ..
  qed
  with s l show ?thesis by blast
qed

lemma fold_fb_pixel:
  assumes "valid_geometry W H" "length buf = buffer_size W H"
  shows "\<exists>buf'. fold (\<lambda>p. fb_pixel W H (fst p) (snd p) c) ps (Some buf) = Some buf' \<and>
     length buf' = length buf \<and>
     (\<forall>x' y'. x' < W \<longrightarrow> y' < H \<longrightarrow>
        pixel_at W buf' x' y' = (if (x', y') \<in> set ps then c \<noteq> 0 else pixel_at W buf x' y'))"
  using assms(2)
proof (induction ps arbitrary: buf)
  case Nil
  then show ?case by simp
next
  case (Cons p ps)
  from drawPixel_pixel_at [OF assms(1) Cons.prems, of "fst p" "snd p" c] obtain buf1 where
    s: "ssd1306_drawPixel W H (fst p) (snd p) c buf = Some buf1" and l: "length buf1 = length buf"
    and b: "\<And>x' y'. x' < W \<Longrightarrow> y' < H \<Longrightarrow>
        pixel_at W buf1 x' y' = (if x' = fst p \<and> y' = snd p then c \<noteq> 0 else pixel_at W buf x' y')"
    by blast
  from l Cons.prems have l1: "length buf1 = buffer_size W H" by simp
  from Cons.IH [OF l1] obtain buf' where
    s': "fold (\<lambda>p. fb_pixel W H (fst p) (snd p) c) ps (Some buf1) = Some buf'"
    and l': "length buf' = length buf1"
    and b': "\<And>x' y'. x' < W \<Longrightarrow> y' < H \<Longrightarrow>
        pixel_at W buf' x' y' = (if (x', y') \<in> set ps then c \<noteq> 0 else pixel_at W buf1 x' y')"
    by blast
  have "fold (\<lambda>p. fb_pixel W H (fst p) (snd p) c) (p # ps) (Some buf) = Some buf'"
    using s s' by (simp add: fb_pixel_def)
  moreover have "length buf' = length buf" using l l' by simp
  moreover have "pixel_at W buf' x' y' = (if (x', y') \<in> set (p # ps) then c \<noteq> 0 else pixel_at W buf x' y')"
    if "x' < W" "y' < H" for x' y'
    using b [OF that] b' [OF that] by (cases p) auto
  ultimately show ?case by blast
qed

subsection \<open>Horizontal line\<close>

lemma hline_loop_fold:
  "hline_loop plot x y w color s = fold (\<lambda>k. plot (x + of_nat k) y color) [0..<unat w] s"
proof (induction plot x y w color s rule: hline_loop.induct)
  case (1 plot x y w color s)
  show ?case
  proof (cases "w = 0")
    case True
    then show ?thesis by (subst hline_loop.simps) simp
  next
    case False
    then have u: "unat w = Suc (unat (w - 1))"
      by (simp add: unat_minus_one unat_gt_0)
    have up: "[0..<Suc n] = 0 # map Suc [0..<n]" for n
      by (simp only: map_Suc_upt upt_conv_Cons [OF zero_less_Suc])
    have "hline_loop plot x y w color s = hline_loop plot (x + 1) y (w - 1) color (plot x y color s)"
      using False by (subst hline_loop.simps) simp
    also have "\<dots> = fold (\<lambda>k. plot (x + 1 + of_nat k) y color) [0..<unat (w - 1)] (plot x y color s)"
      using "1.IH" [OF False] .
    also have "\<dots> = fold (\<lambda>k. plot (x + of_nat k) y color) [0..<unat w] s"
      unfolding u up by (simp add: fold_map comp_def add.assoc)
    finally show ?thesis .
  qed
qed

lemma hline_zero_width_at_0:
  assumes "0 < W" "y < H"
  shows "drawFastHLine_gen plot W H 0 y 0 color s
           = fold (\<lambda>k. plot (of_nat k) y color) [0..<unat W] s"
proof -
  from assms have n: "\<not> (W \<le> 0 \<or> H \<le> y)" by (simp add: word_le_nat_alt word_less_nat_alt)
  have "W \<le> (0::u32) + 0 - 1" by simp
  with n show ?thesis
    by (simp add: drawFastHLine_gen_def hline_loop_fold)
qed

lemma hline_zero_width_inside:
  assumes "1 \<le> x" "x < W" "y < H"
  shows "drawFastHLine_gen plot W H x y 0 color s = s"
proof -
  from assms(2,3) have n: "\<not> (W \<le> x \<or> H \<le> y)" by (simp add: not_le)
  from assms(1) have "x \<noteq> 0" by auto
  then have "unat (x - 1) < unat x" by (rule measure_unat)
  with assms(2) have "\<not> W \<le> x + 0 - 1" by (simp add: word_le_nat_alt word_less_nat_alt)
  with n show ?thesis
    by (simp add: drawFastHLine_gen_def Let_def hline_loop.simps [of _ _ _ 0])
qed

text \<open>
  Claim C9. \<^verbatim>\<open>ssd1306_drawFastHLine\<close> with \<open>w = 0\<close> is not uniformly a no-op. For \<open>x = 0\<close>
  and \<open>y < H\<close> the unsigned \<open>x + w - 1\<close> is \<open>2^32 - 1\<close>, the clamp makes \<open>w = W\<close>, the
  pixel operation is called once for each of the \<open>W\<close> columns of row \<open>y\<close>, and every pixel
  of that row ends up with the given colour while every other row keeps its pixels. For
  \<open>1 \<le> x < W\<close> and \<open>y < H\<close> the call makes no pixel call and returns the framebuffer
  unchanged.
\<close>

theorem drawFastHLine_zero_width:
  assumes "valid_geometry W H" and "length buf = buffer_size W H" and "y < H"
  shows "(0::u32) + 0 - 1 = 0xFFFFFFFF \<and>
    drawFastHLine_gen rec_pixel W H 0 y 0 color [] = map (\<lambda>k. (of_nat k, y, color)) [0..<unat W] \<and>
    (\<exists>buf'. ssd1306_drawFastHLine W H 0 y 0 color buf = Some buf' \<and> length buf' = length buf \<and>
       (\<forall>x' y'. x' < W \<longrightarrow> y' < H \<longrightarrow>
          pixel_at W buf' x' y' = (if y' = y then color \<noteq> 0 else pixel_at W buf x' y'))) \<and>
    (\<forall>x. 1 \<le> x \<and> x < W \<longrightarrow>
       drawFastHLine_gen rec_pixel W H x y 0 color [] = [] \<and>
       ssd1306_drawFastHLine W H x y 0 color buf = Some buf)"
proof -
  from assms(1) have w: "0 < W" by (simp add: valid_geometry_def word_less_nat_alt)
  have rec: "fold (\<lambda>k. rec_pixel (f k) y color) ks acc = acc @ map (\<lambda>k. (f k, y, color)) ks"
    for f :: "nat \<Rightarrow> u32" and ks acc
    by (induction ks arbitrary: acc) (simp_all add: rec_pixel_def)
  have c2: "drawFastHLine_gen rec_pixel W H 0 y 0 color []
      = map (\<lambda>k. (of_nat k, y, color)) [0..<unat W]"
    by (simp add: hline_zero_width_at_0 [OF w assms(3)] rec)
  have f: "ssd1306_drawFastHLine W H 0 y 0 color buf
      = fold (\<lambda>p. fb_pixel W H (fst p) (snd p) color) (map (\<lambda>k. (of_nat k, y)) [0..<unat W]) (Some buf)"
    by (simp add: ssd1306_drawFastHLine_def hline_zero_width_at_0 [OF w assms(3)] fold_map comp_def)
  from fold_fb_pixel [OF assms(1,2), of color "map (\<lambda>k. (of_nat k, y)) [0..<unat W]"]
  obtain buf' where
    s: "ssd1306_drawFastHLine W H 0 y 0 color buf = Some buf'" and l: "length buf' = length buf"
    and b: "\<And>x' y'. x' < W \<Longrightarrow> y' < H \<Longrightarrow> pixel_at W buf' x' y' =
       (if (x', y') \<in> set (map (\<lambda>k. (of_nat k, y)) [0..<unat W]) then color \<noteq> 0
        else pixel_at W buf x' y')"
    unfolding f by blast
  have m: "(x', y') \<in> set (map (\<lambda>k. (of_nat k, y)) [0..<unat W]) \<longleftrightarrow> y' = y"
    if "x' < W" for x' y'
  proof -
    from that have "unat x' \<in> {0..<unat W}" by (simp add: word_less_nat_alt)
    then have "(of_nat (unat x'), y) \<in> (\<lambda>k. (of_nat k :: u32, y)) ` {0..<unat W}" by (rule imageI)
    then show ?thesis by auto
  qed
  have c3: "\<exists>buf'. ssd1306_drawFastHLine W H 0 y 0 color buf = Some buf' \<and> length buf' = length buf \<and>
       (\<forall>x' y'. x' < W \<longrightarrow> y' < H \<longrightarrow>
          pixel_at W buf' x' y' = (if y' = y then color \<noteq> 0 else pixel_at W buf x' y'))"
    using s l b m by (intro exI [of _ buf']) simp
  have c4: "\<forall>x. 1 \<le> x \<and> x < W \<longrightarrow>
       drawFastHLine_gen rec_pixel W H x y 0 color [] = [] \<and>
       ssd1306_drawFastHLine W H x y 0 color buf = Some buf"
    by (simp add: ssd1306_drawFastHLine_def hline_zero_width_inside [OF _ _ assms(3)])
  have c1: "(0::u32) + 0 - 1 = 0xFFFFFFFF" by simp
  from c1 c2 c3 c4 show ?thesis by blast
qed

theorem drawFastHLine_zero_width_witness:
  "valid_geometry 128 64 \<and> length (replicate 1024 (0::u8)) = buffer_size 128 64 \<and> (3::u32) < 64 \<and>
   (\<exists>buf'. ssd1306_drawFastHLine 128 64 0 3 0 1 (replicate 1024 0) = Some buf' \<and>
      pixel_at 128 buf' 127 3 \<and> \<not> pixel_at 128 buf' 127 4) \<and>
   (1::u32) \<le> 5 \<and> (5::u32) < 128 \<and>
   ssd1306_drawFastHLine 128 64 5 3 0 1 (replicate 1024 0) = Some (replicate 1024 0)"
proof -
  have g: "valid_geometry 128 64" by (simp add: valid_geometry_def)
  have l: "length (replicate 1024 (0::u8)) = buffer_size 128 64" by (simp add: buffer_size_def)
  have y: "(3::u32) < 64" by simp
  note t = drawFastHLine_zero_width [OF g l y, of 1]
  from t obtain buf' where
    s: "ssd1306_drawFastHLine 128 64 0 3 0 1 (replicate 1024 0) = Some buf'"
    and b: "\<forall>x' y'. x' < 128 \<longrightarrow> y' < 64 \<longrightarrow>
          pixel_at 128 buf' x' y' = (if y' = 3 then (1::u32) \<noteq> 0 else pixel_at 128 (replicate 1024 0) x' y')"
    by blast
  from b have "pixel_at 128 buf' 127 3" by simp
  moreover from b have "pixel_at 128 buf' 127 4 = pixel_at 128 (replicate 1024 0) 127 4" by simp
  then have "\<not> pixel_at 128 buf' 127 4" by (simp add: pixel_at_def)
  moreover from t have "ssd1306_drawFastHLine 128 64 5 3 0 1 (replicate 1024 0) = Some (replicate 1024 0)"
    by simp
  ultimately show ?thesis using g l s by simp
qed

subsection \<open>Strings\<close>

lemma upt_Suc_shift: "[0..<Suc n] = 0 # map Suc [0..<n]"
  by (simp only: map_Suc_upt upt_conv_Cons [OF zero_less_Suc])

lemma drawstr_loop_fold:
  assumes "unat x \<le> 247" "0 \<notin> set str"
  shows "drawstr_loop emit x str s
     = fold (\<lambda>k. emit (x + of_nat (8 * k)) (str ! k))
         [0..<min (length str) ((120 - unat x) div 8 + 1)] s"
  using assms
proof (induction str arbitrary: x s)
  case Nil
  show ?case by simp
next
  case (Cons c str)
  from Cons.prems have c: "c \<noteq> 0" and z: "0 \<notin> set str" by auto
  from Cons.prems(1) have u: "unat (x + 8) = unat x + 8"
    by (simp add: unat_word_ariths)
  show ?case
  proof (cases "x + 8 > 120")
    case True
    then have "unat x + 8 > 120" using u by (simp add: word_less_nat_alt)
    then have "(120 - unat x) div 8 = 0" by simp
    then have n: "min (length (c # str)) ((120 - unat x) div 8 + 1) = 1" by simp
    show ?thesis unfolding n using c True by simp
  next
    case False
    then have le: "unat x + 8 \<le> 120" using u by (simp add: word_less_nat_alt)
    then have d: "(120 - unat x) div 8 = Suc ((120 - (unat x + 8)) div 8)"
      by (simp add: le_div_geq)
    have n: "min (length (c # str)) ((120 - unat x) div 8 + 1)
        = Suc (min (length str) ((120 - unat (x + 8)) div 8 + 1))"
      by (simp add: d u)
    have x': "unat (x + 8) \<le> 247" using le u by simp
    show ?thesis
      unfolding n upt_Suc_shift
      using c False Cons.IH [OF x' z, of "emit x c s"]
      by (simp add: fold_map comp_def add.assoc)
  qed
qed


lemma drawstr_glyphs_closed:
  assumes "unat x \<le> 247" "0 \<notin> set str"
  shows "drawstr_glyphs x str
     = map (\<lambda>k. (x + of_nat (8 * k), str ! k)) [0..<min (length str) ((120 - unat x) div 8 + 1)]"
proof -
  have "fold (\<lambda>k calls. calls @ [(f k, g k)]) ks acc = acc @ map (\<lambda>k. (f k, g k)) ks"
    for f :: "nat \<Rightarrow> u8" and g :: "nat \<Rightarrow> u8" and ks acc
    by (induction ks arbitrary: acc) simp_all
  then show ?thesis
    by (simp add: drawstr_glyphs_def drawstr_loop_fold [OF assms])
qed

text \<open>
  Claim C7, as amended. The stop test of \<^verbatim>\<open>ssd1306_drawstr\<close> is the constant
  \<^verbatim>\<open>x > 120\<close>, whatever the display width, and the cursor is a \<^verbatim>\<open>uint8_t\<close>. For a start
  column of at most 247 (so that the cursor does not wrap) the first character is always
  drawn at \<open>x\<close>, the cursor advances by 8 per character, and character \<open>k\<close> is drawn at
  \<open>x + 8 * k\<close> exactly as long as \<open>x + 8 * k \<le> 120\<close>, that is as long as its glyph ends at or
  before column 128; the remaining characters are dropped, none is moved to another
  line. \<^verbatim>\<open>ssd1306_drawstr(120, y, "HELLO", color)\<close> draws the single glyph "H" at column 120.
\<close>

theorem drawstr_clipping:
  assumes "unat x \<le> 247" and "0 \<notin> set str"
  shows "drawstr_glyphs x str
           = map (\<lambda>k. (x + of_nat (8 * k), str ! k))
               [0..<min (length str) ((120 - unat x) div 8 + 1)] \<and>
         ssd1306_drawstr W H fontdata x y str color buf
           = fold (\<lambda>k. ssd1306_drawchar W H fontdata (x + of_nat (8 * k)) y (str ! k) color)
               [0..<min (length str) ((120 - unat x) div 8 + 1)] (Some buf) \<and>
         (\<forall>k. 0 < k \<and> k < min (length str) ((120 - unat x) div 8 + 1)
               \<longrightarrow> unat x + 8 * k + 8 \<le> 128) \<and>
         (min (length str) ((120 - unat x) div 8 + 1) < length str
               \<longrightarrow> unat x + 8 * min (length str) ((120 - unat x) div 8 + 1) + 8 > 128) \<and>
         drawstr_glyphs 120 [0x48, 0x45, 0x4C, 0x4C, 0x4F] = [(120, 0x48)] \<and>
         ssd1306_drawstr W H fontdata 120 y [0x48, 0x45, 0x4C, 0x4C, 0x4F] color buf
           = ssd1306_drawchar W H fontdata 120 y 0x48 color (Some buf)"
proof -
  let ?n = "min (length str) ((120 - unat x) div 8 + 1)"
  have c1: "drawstr_glyphs x str = map (\<lambda>k. (x + of_nat (8 * k), str ! k)) [0..<?n]"
    by (rule drawstr_glyphs_closed [OF assms])
  have c2: "ssd1306_drawstr W H fontdata x y str color buf
           = fold (\<lambda>k. ssd1306_drawchar W H fontdata (x + of_nat (8 * k)) y (str ! k) color)
               [0..<?n] (Some buf)"
    by (simp add: ssd1306_drawstr_def drawstr_loop_fold [OF assms])
  have c3: "\<forall>k. 0 < k \<and> k < ?n \<longrightarrow> unat x + 8 * k + 8 \<le> 128"
  proof (intro allI impI)
    fix k assume k: "0 < k \<and> k < ?n"
    then have "k \<le> (120 - unat x) div 8" by simp
    then have "8 * k \<le> 8 * ((120 - unat x) div 8)" by simp
    also have "\<dots> \<le> 120 - unat x" by simp
    finally have "8 * k \<le> 120 - unat x" .
    moreover from k have "0 < 8 * k" by simp
    ultimately show "unat x + 8 * k + 8 \<le> 128" by linarith
  qed
  have c4: "?n < length str \<longrightarrow> unat x + 8 * ?n + 8 > 128"
  proof
    assume "?n < length str"
    then have n: "?n = (120 - unat x) div 8 + 1" by simp
    have "120 - unat x < 8 * ((120 - unat x) div 8) + 8"
      using mod_less_divisor [of 8 "120 - unat x"] div_mult_mod_eq [of "120 - unat x" 8]
      by linarith
    then show "unat x + 8 * ?n + 8 > 128" unfolding n by simp
  qed
  have c5: "drawstr_glyphs 120 [0x48, 0x45, 0x4C, 0x4C, 0x4F] = [(120, 0x48)]"
    by (simp add: drawstr_glyphs_def)
  have c6: "ssd1306_drawstr W H fontdata 120 y [0x48, 0x45, 0x4C, 0x4C, 0x4F] color buf
           = ssd1306_drawchar W H fontdata 120 y 0x48 color (Some buf)"
    by (simp add: ssd1306_drawstr_def)
  from c1 c2 c3 c4 c5 c6 show ?thesis by blast
qed

theorem drawstr_clipping_witness:
  "unat (100::u8) \<le> 247 \<and> 0 \<notin> set [0x48, 0x45, 0x4C, 0x4C, 0x4F :: u8] \<and>
   drawstr_glyphs 100 [0x48, 0x45, 0x4C, 0x4C, 0x4F] = [(100, 0x48), (108, 0x45), (116, 0x4C)]"
proof -
  have a: "unat (100::u8) \<le> 247" by simp
  have b: "0 \<notin> set [0x48, 0x45, 0x4C, 0x4C, 0x4F :: u8]" by simp
  have n: "min (length [0x48, 0x45, 0x4C, 0x4C, 0x4F :: u8]) ((120 - unat (100 :: u8)) div 8 + 1) = 3"
    by simp
  have up: "[0..<3] = [0, 1, 2]" by (simp add: upt_rec)
  from drawstr_clipping [OF a b]
  have "drawstr_glyphs 100 [0x48, 0x45, 0x4C, 0x4C, 0x4F]
      = map (\<lambda>k. (100 + of_nat (8 * k), [0x48, 0x45, 0x4C, 0x4C, 0x4F :: u8] ! k)) [0..<3]"
    unfolding n by blast
  then show ?thesis using a b by (simp add: up)
qed

text \<open>
  The claim as stated fails in two ways. The stop column does not follow the display
  width: a ten-character string started at column 0 is emitted in full, its last glyphs
  at columns 64 and 72, which lie beyond a 64-column display (\<^verbatim>\<open>SSD1306_64X32\<close>) and, for
  the last one, beyond a 72-column display (\<^verbatim>\<open>SSD1306_72X40\<close>). And the 8-bit cursor
  wraps: started at column 250, the second character is emitted at column 2.
\<close>

theorem drawstr_clipping_counterexample:
  "drawstr_glyphs 0 [0x41, 0x42, 0x43, 0x44, 0x45, 0x46, 0x47, 0x48, 0x49, 0x4A]
     = [(0, 0x41), (8, 0x42), (16, 0x43), (24, 0x44), (32, 0x45), (40, 0x46), (48, 0x47),
        (56, 0x48), (64, 0x49), (72, 0x4A)] \<and>
   drawstr_glyphs 250 [0x41, 0x42] = [(250, 0x41), (2, 0x42)]"
  by (simp add: drawstr_glyphs_def)

subsection \<open>Lines\<close>

lemma gfx_swap_exact: "0 \<le> z0 \<Longrightarrow> z0 < 65536 \<Longrightarrow> gfx_swap z0 z1 = (z1, z0)"
  by (simp add: gfx_swap_def)

lemma line_loop_classic:
  "line_loop plot steep dx dy ystep x1 color x y err s
     = classic_loop plot steep dx dy ystep x1 color x y err s"
proof (induction plot steep dx dy ystep x1 color x y err s rule: line_loop.induct)
  case (1 plot steep deltax deltay ystep x1 color x y error s)
  show ?case
  proof (cases "x \<le> x1")
    case False
    then show ?thesis
      by (subst line_loop.simps, subst classic_loop.simps) simp
  next
    case True
    show ?thesis
      using True "1.IH"
      by (subst line_loop.simps, subst classic_loop.simps) (simp add: Let_def)
  qed
qed

text \<open>Where every coordinate is a 16-bit unsigned value the swap loses nothing and the
  routine is the classic algorithm.\<close>

lemma drawLine_classic_in_range:
  assumes "0 \<le> x0" "x0 < 65536" "0 \<le> y0" "y0 < 65536"
    and "0 \<le> x1" "x1 < 65536" "0 \<le> y1" "y1 < 65536"
  shows "drawLine_gen plot x0 y0 x1 y1 color s = classic_line plot x0 y0 x1 y1 color s"
proof -
  have d: "c_div a 2 = a div 2" if "0 \<le> a" for a
    using that by (cases "a = 0") (simp_all add: c_div_def)
  show ?thesis
    using assms
    by (auto simp: drawLine_gen_def classic_line_def gfx_swap_exact gfx_abs_def abs_if
        line_loop_classic d Let_def)
qed

text \<open>
  Claim C5 fails where a swap has to carry a negative coordinate (or one above 65535):
  the \<^verbatim>\<open>uint16_t\<close> temporary of \<^verbatim>\<open>gfx_swap\<close> turns \<open>-1\<close> into 65535. For the line from
  \<open>(5, -1)\<close> to \<open>(0, 2)\<close> the routine plots a rising diagonal from \<open>(0, 2)\<close> to \<open>(5, 7)\<close>,
  where the classic algorithm plots the falling line \<open>(0,2), (1,1), (2,1), (3,0), (4,0)\<close>
  and the off-screen point \<open>(5, -1)\<close>.
\<close>

theorem drawLine_negative_endpoint:
  "drawLine_calls 5 (- 1) 0 2 1
     = [(0, 2, 1), (1, 3, 1), (2, 4, 1), (3, 5, 1), (4, 6, 1), (5, 7, 1)] \<and>
   classic_line_calls 5 (- 1) 0 2 1
     = [(0, 2, 1), (1, 1, 1), (2, 1, 1), (3, 0, 1), (4, 0, 1), (5, 0xFFFFFFFF, 1)]"
  by (simp add: drawLine_calls_def drawLine_gen_def classic_line_calls_def classic_line_def
      gfx_swap_def gfx_abs_def c_div_def line_loop.simps classic_loop.simps rec_pixel_def Let_def)

subsection \<open>Circles\<close>

text \<open>
  A 32-bit \<^verbatim>\<open>int\<close> whose value \<open>v\<close> lies in the \<^verbatim>\<open>int\<close> range is the word \<open>word_of_int v\<close>;
  on such words the signed comparisons and the equality are those of the values.
\<close>

lemma sint_of_int32:
  "- 2147483648 \<le> v \<Longrightarrow> v < 2147483648 \<Longrightarrow> sint (word_of_int v :: s32) = v"
  by (simp add: signed_of_int signed_take_bit_int_eq_self)

lemma sle_of_int32:
  assumes "- 2147483648 \<le> a" "a < 2147483648" "- 2147483648 \<le> b" "b < 2147483648"
  shows "((word_of_int a :: s32) \<le>s word_of_int b) = (a \<le> b)"
  by (simp only: word_sle_eq sint_of_int32 [OF assms(1,2)] sint_of_int32 [OF assms(3,4)])

lemma sless_of_int32:
  assumes "- 2147483648 \<le> a" "a < 2147483648" "- 2147483648 \<le> b" "b < 2147483648"
  shows "((word_of_int a :: s32) <s word_of_int b) = (a < b)"
  by (simp only: word_sless_alt sint_of_int32 [OF assms(1,2)] sint_of_int32 [OF assms(3,4)])

lemma eq_of_int32:
  assumes "- 2147483648 \<le> a" "a < 2147483648" "- 2147483648 \<le> b" "b < 2147483648"
  shows "((word_of_int a :: s32) = word_of_int b) = (a = b)"
proof
  assume "(word_of_int a :: s32) = word_of_int b"
  then have "sint (word_of_int a :: s32) = sint (word_of_int b :: s32)" by simp
  then show "a = b"
    by (simp only: sint_of_int32 [OF assms(1,2)] sint_of_int32 [OF assms(3,4)])
qed simp

text \<open>
  One pass of the loop on a state whose components are in range: the decisions are those
  of the integer values, and the new components are the words of the integer results.
\<close>

lemma circle_step_of_int:
  fixes X Y E :: int
  assumes "- 2147483647 \<le> X" "X \<le> 0" "0 \<le> Y" "Y < 2147483647"
    "- 2147483648 \<le> E" "E < 2147483648"
  shows "circle_step (word_of_int X, word_of_int Y, word_of_int E) =
     (if E \<le> Y then
        (if X < (if - X = Y + 1 \<and> E \<le> X then 0 else E)
         then (word_of_int (X + 1), word_of_int (Y + 1), word_of_int (E + 2 * Y + 2 * X + 6))
         else (word_of_int X, word_of_int (Y + 1), word_of_int (E + 2 * Y + 3)))
      else if X < E then (word_of_int (X + 1), word_of_int Y, word_of_int (E + 2 * X + 3))
      else (word_of_int X, word_of_int Y, word_of_int E))"
proof -
  have c1: "((word_of_int E :: s32) \<le>s word_of_int Y) = (E \<le> Y)"
    using assms by (intro sle_of_int32) simp_all
  have c2: "((word_of_int E :: s32) \<le>s word_of_int X) = (E \<le> X)"
    using assms by (intro sle_of_int32) simp_all
  have c3: "((word_of_int X :: s32) <s word_of_int E) = (X < E)"
    using assms by (intro sless_of_int32) simp_all
  have c4: "((word_of_int X :: s32) <s 0) = (X < 0)"
    using sless_of_int32 [of X 0] assms by simp
  have "((word_of_int (- X) :: s32) = word_of_int (Y + 1)) = (- X = Y + 1)"
    using assms by (intro eq_of_int32) simp_all
  then have c5: "(- (word_of_int X :: s32) = word_of_int Y + 1) = (- X = Y + 1)"
    by simp
  from c5 have c6: "(- (word_of_int X :: s32) = 1 + word_of_int Y) = (- X = 1 + Y)"
    by (simp add: add.commute)
  show ?thesis
    unfolding circle_step_def
    by (simp add: Let_def c1 c2 c3 c4 c6 algebra_simps)
qed

lemma y_below_r:
  assumes "0 \<le> r" "0 \<le> y" "(x + 1) * (x + 1) + (y + 1) * (y + 1) - r * r \<le> (y::int)"
  shows "y < r"
proof (rule ccontr)
  assume "\<not> y < r"
  then have "r \<le> y" by simp
  with assms(1) have "r * r \<le> y * y" by (simp add: mult_mono)
  moreover have "0 \<le> (x + 1) * (x + 1)" by simp
  moreover have "(y + 1) * (y + 1) = y * y + 2 * y + 1" by (simp add: algebra_simps)
  ultimately show False using assms(2,3) by linarith
qed

text \<open>
  For a radius \<open>r\<close> with \<open>0 \<le> r \<le> 715827880\<close>, that is \<open>3 r + 7 < 2^31\<close>, a pass started in
  the invariant ends in a state whose components are the exact integer results (none
  has wrapped), and if the loop goes on the invariant holds again and the measure is
  smaller.
\<close>

lemma circle_state_after:
  fixes X' Y' E' :: int
  assumes "0 \<le> r" "r \<le> 715827880"
    and "- r \<le> X'" "X' \<le> 1" "0 \<le> Y'" "Y' \<le> r"
    and "E' = (X' + 1) * (X' + 1) + (Y' + 1) * (Y' + 1) - r * r"
    and "- (3 * r) \<le> E'" "E' \<le> 3 * r + 7" "X' \<le> 0 \<longrightarrow> E' \<le> 3 * r + 4 + X'"
  shows "sint (word_of_int X' :: s32) = X'" "sint (word_of_int Y' :: s32) = Y'"
    "sint (word_of_int E' :: s32) = E'"
    "((word_of_int X' :: s32) \<le>s 0) = (X' \<le> 0)"
    "X' \<le> 0 \<longrightarrow> circle_inv r (word_of_int X', word_of_int Y', word_of_int E')"
proof -
  show x: "sint (word_of_int X' :: s32) = X'"
    using assms(1-4) by (intro sint_of_int32) simp_all
  show y: "sint (word_of_int Y' :: s32) = Y'"
    using assms(1,2,5,6) by (intro sint_of_int32) simp_all
  show e: "sint (word_of_int E' :: s32) = E'"
    using assms(1,2,8,9) by (intro sint_of_int32) simp_all
  show "((word_of_int X' :: s32) \<le>s 0) = (X' \<le> 0)"
    by (simp only: word_sle_eq x sint_0)
  show "X' \<le> 0 \<longrightarrow> circle_inv r (word_of_int X', word_of_int Y', word_of_int E')"
  proof -
    have "circle_inv r (word_of_int X', word_of_int Y', word_of_int E') \<longleftrightarrow>
        - r \<le> X' \<and> X' \<le> 0 \<and> 0 \<le> Y' \<and> Y' \<le> r \<and>
        E' = (X' + 1) * (X' + 1) + (Y' + 1) * (Y' + 1) - r * r \<and>
        - (3 * r) \<le> E' \<and> E' \<le> 3 * r + 4 + X'"
      by (simp only: circle_inv_def prod.case x y e)
    with assms(3-10) show ?thesis by blast
  qed
qed

lemma circle_step_inv:
  assumes "0 \<le> r" "r \<le> 715827880" "circle_inv r st"
  shows "fst (circle_step st) \<le>s 0 \<longrightarrow>
           circle_inv r (circle_step st) \<and> circle_measure r (circle_step st) < circle_measure r st"
proof -
  obtain x y err where st: "st = (x, y, err)" by (cases st) auto
  define X where "X = sint x"
  define Y where "Y = sint y"
  define E where "E = sint err"
  from assms(3) have i: "- r \<le> X" "X \<le> 0" "0 \<le> Y" "Y \<le> r"
    "E = (X + 1) * (X + 1) + (Y + 1) * (Y + 1) - r * r" "- (3 * r) \<le> E" "E \<le> 3 * r + 4 + X"
    by (simp_all add: circle_inv_def st X_def Y_def E_def)
  have w: "st = (word_of_int X, word_of_int Y, word_of_int E)"
    by (simp add: st X_def Y_def E_def)
  have m: "circle_measure r st = nat (1 - X) + nat (r - Y)"
    by (simp add: circle_measure_def st X_def Y_def)
  have rng: "- 2147483647 \<le> X" "Y < 2147483647" "- 2147483648 \<le> E" "E < 2147483648"
    using i(1,2,4,6,7) assms(1,2) by simp_all
  note step = circle_step_of_int [OF rng(1) i(2) i(3) rng(2) rng(3) rng(4), folded w]
  have fin: ?thesis
    if s: "circle_step st = (word_of_int X', word_of_int Y', word_of_int E')"
      and b: "- r \<le> X'" "X' \<le> 1" "0 \<le> Y'" "Y' \<le> r"
        "E' = (X' + 1) * (X' + 1) + (Y' + 1) * (Y' + 1) - r * r"
        "- (3 * r) \<le> E'" "E' \<le> 3 * r + 7" "X' \<le> 0 \<longrightarrow> E' \<le> 3 * r + 4 + X'"
      and d: "(1 - X') + (r - Y') < (1 - X) + (r - Y)"
    for X' Y' E'
  proof -
    note a = circle_state_after [OF assms(1,2) b]
    have m': "circle_measure r (word_of_int X', word_of_int Y', word_of_int E')
        = nat (1 - X') + nat (r - Y')"
      by (simp only: circle_measure_def prod.case a(1,2))
    have "nat (1 - X') + nat (r - Y') < nat (1 - X) + nat (r - Y)"
      using d b(2,4) i(2,4) by linarith
    with a(4,5) show ?thesis by (simp only: s fst_conv m m') blast
  qed
  show ?thesis
  proof (cases "E \<le> Y")
    case True
    from y_below_r [OF assms(1) i(3)] True i(5) have yr: "Y < r" by simp
    show ?thesis
    proof (cases "X < (if - X = Y + 1 \<and> E \<le> X then 0 else E)")
      case x: True
      from step True x have s: "circle_step st
          = (word_of_int (X + 1), word_of_int (Y + 1), word_of_int (E + 2 * Y + 2 * X + 6))"
        by simp
      have e: "E + 2 * Y + 2 * X + 6 = (X + 1 + 1) * (X + 1 + 1) + (Y + 1 + 1) * (Y + 1 + 1) - r * r"
        by (simp add: i(5) algebra_simps)
      have lo: "- (3 * r) \<le> E + 2 * Y + 2 * X + 6"
        using x i(1,3,6) by (cases "- X = Y + 1 \<and> E \<le> X") simp_all
      show ?thesis
        using True yr i(1-4) i(6,7) lo assms(1) by (intro fin [OF s _ _ _ _ e]) simp_all
    next
      case x: False
      from step True x have s: "circle_step st
          = (word_of_int X, word_of_int (Y + 1), word_of_int (E + 2 * Y + 3))"
        by simp
      have e: "E + 2 * Y + 3 = (X + 1) * (X + 1) + (Y + 1 + 1) * (Y + 1 + 1) - r * r"
        by (simp add: i(5) algebra_simps)
      from x i(2,3) have ex: "E \<le> X" by (cases "- X = Y + 1 \<and> E \<le> X") simp_all
      show ?thesis
        using True yr ex i(1-4) i(6,7) assms(1) by (intro fin [OF s _ _ _ _ e]) simp_all
    qed
  next
    case False
    with i(2,3) have x: "X < E" by simp
    from step False x have s: "circle_step st
        = (word_of_int (X + 1), word_of_int Y, word_of_int (E + 2 * X + 3))"
      by simp
    have e: "E + 2 * X + 3 = (X + 1 + 1) * (X + 1 + 1) + (Y + 1) * (Y + 1) - r * r"
      by (simp add: i(5) algebra_simps)
    show ?thesis
      using False x i(1-4) i(6,7) assms(1) by (intro fin [OF s _ _ _ _ e]) simp_all
  qed
qed

lemma circle_loop_returns:
  assumes "0 \<le> r" "r \<le> 715827880" "circle_inv r st"
  shows "\<exists>s'. circle_loop body st s = Some s'"
  using assms(3)
proof (induction "circle_measure r st" arbitrary: st s rule: less_induct)
  case less
  show ?case
  proof (cases "fst (circle_step st) \<le>s 0")
    case False
    then show ?thesis by (subst circle_loop.simps) (simp add: Let_def)
  next
    case True
    with circle_step_inv [OF assms(1,2) less.prems]
    have i: "circle_inv r (circle_step st)"
      and m: "circle_measure r (circle_step st) < circle_measure r st" by simp_all
    from less.hyps [OF m i] True show ?thesis
      by (subst circle_loop.simps) (simp add: Let_def)
  qed
qed

lemma radius_range:
  assumes "0 \<le>s radius" "radius \<le>s (715827880 :: s32)"
  shows "0 \<le> sint radius" "sint radius \<le> 715827880"
  using assms by (simp_all add: word_sle_eq)

lemma circle_inv_init:
  assumes "0 \<le>s radius" "radius \<le>s (715827880 :: s32)"
  shows "circle_inv (sint radius) (- radius, 0, 2 - 2 * radius)"
proof -
  define r where "r = sint radius"
  note b = radius_range [OF assms, folded r_def]
  have w: "radius = word_of_int r" by (simp add: r_def)
  have s: "(- radius, 0, 2 - 2 * radius) = (word_of_int (- r), word_of_int 0, word_of_int (2 - 2 * r))"
    by (simp add: w)
  have e: "2 - 2 * r = (- r + 1) * (- r + 1) + (0 + 1) * (0 + 1) - r * r"
    by (simp add: algebra_simps)
  have p: "- r \<le> - r" "- r \<le> 1" "(0::int) \<le> 0" "0 \<le> r" "- (3 * r) \<le> 2 - 2 * r"
    "2 - 2 * r \<le> 3 * r + 7" "- r \<le> 0 \<longrightarrow> 2 - 2 * r \<le> 3 * r + 4 + - r"
    using b by simp_all
  have "- r \<le> 0 \<longrightarrow> circle_inv r (word_of_int (- r), word_of_int 0, word_of_int (2 - 2 * r))"
    by (rule circle_state_after(5) [OF b p(1-4) e p(5-7)])
  with b(1) show ?thesis by (simp only: s r_def [symmetric])
qed


lemma circle_loop_preserves:
  assumes "\<And>a b s. P s \<Longrightarrow> P (body a b s)" "circle_loop body st s = Some s'" "P s"
  shows "P s'"
proof -
  have "(\<forall>a c t. P t \<longrightarrow> P (body a c t)) \<longrightarrow> P s \<longrightarrow> P s'"
  proof (rule circle_loop.raw_induct
      [where P = "\<lambda>b st s s'. (\<forall>a c t. P t \<longrightarrow> P (b a c t)) \<longrightarrow> P s \<longrightarrow> P s'", OF _ assms(2)])
    fix f :: "(s32 \<Rightarrow> s32 \<Rightarrow> 'a \<Rightarrow> 'a) \<Rightarrow> s32 \<times> s32 \<times> s32 \<Rightarrow> 'a \<Rightarrow> 'a option"
    fix b st s y
    assume IH: "\<And>b st s y. f b st s = Some y
        \<Longrightarrow> (\<forall>a c t. P t \<longrightarrow> P (b a c t)) \<longrightarrow> P s \<longrightarrow> P y"
      and eq: "(let s' = b (fst st) (fst (snd st)) s; st' = circle_step st
                in if fst st' \<le>s 0 then f b st' s' else Some s') = Some y"
    show "(\<forall>a c t. P t \<longrightarrow> P (b a c t)) \<longrightarrow> P s \<longrightarrow> P y"
    proof (intro impI)
      assume h: "\<forall>a c t. P t \<longrightarrow> P (b a c t)" and ps: "P s"
      then have p: "P (b (fst st) (fst (snd st)) s)" by blast
      show "P y"
      proof (cases "fst (circle_step st) \<le>s 0")
        case True
        with eq have "f b (circle_step st) (b (fst st) (fst (snd st)) s) = Some y"
          by (simp add: Let_def)
        from IH [OF this] h p show ?thesis by blast
      next
        case False
        with eq have "y = b (fst st) (fst (snd st)) s" by (simp add: Let_def)
        with p show ?thesis by simp
      qed
    qed
  qed
  with assms(1,3) show ?thesis by blast
qed






subsection \<open>Image compositor: each loop as a fold\<close>

lemma upt_head: "i < j \<Longrightarrow> [i..<j] = i # [Suc i..<j]"
  by (rule upt_conv_Cons)

lemma unat_succ_below: "(i::u32) < n \<Longrightarrow> unat (i + 1) = Suc (unat i)"
proof -
  assume "i < n"
  then have "unat i < unat n" by (simp add: word_less_nat_alt)
  moreover have "unat n < 2 ^ 32" using unsigned_less [of n, where 'a = nat] by simp
  ultimately show ?thesis by (simp add: unat_word_ariths)
qed

lemma image_pixel_loop_fold:
  "image_pixel_loop put W x ya btd byte ib pixel s
     = fold (\<lambda>p. put (x + 8 * (btd - byte) + p) ya ib p)
         (takeWhile (\<lambda>p. x + 8 * (btd - byte) + p < W) (map of_nat [unat pixel..<8])) s"
proof (induction put W x ya btd byte ib pixel s rule: image_pixel_loop.induct)
  case (1 put W x ya btd byte ib pixel s)
  show ?case
  proof (cases "pixel < 8")
    case False
    then have "\<not> unat pixel < 8" by (simp add: word_less_nat_alt)
    with False show ?thesis by (subst image_pixel_loop.simps) simp
  next
    case True
    then have u: "unat pixel < 8" by (simp add: word_less_nat_alt)
    note l = upt_head [OF u]
    note s = unat_succ_below [OF True]
    show ?thesis
    proof (cases "W \<le> x + 8 * (btd - byte) + pixel")
      case True
      with \<open>pixel < 8\<close> leD [OF True] show ?thesis
        by (subst image_pixel_loop.simps) (simp add: l)
    next
      case False
      have "image_pixel_loop put W x ya btd byte ib pixel s
          = image_pixel_loop put W x ya btd byte ib (pixel + 1)
              (put (x + 8 * (btd - byte) + pixel) ya ib pixel s)"
        by (subst image_pixel_loop.simps) (simp only: \<open>pixel < 8\<close> False Let_def if_True if_False)
      with "1.IH" [OF \<open>pixel < 8\<close> refl False] False show ?thesis
        by (simp add: l s not_le)
    qed
  qed
qed

lemma image_byte_loop_fold:
  "image_byte_loop put W x ya input btd line byte s
     = fold (\<lambda>b. image_pixel_loop put W x ya btd b (ucast (input (b + line * btd))) 0)
         (map of_nat [unat byte..<unat btd]) s"
proof (induction put W x ya input btd line byte s rule: image_byte_loop.induct)
  case (1 put W x ya input btd line byte s)
  show ?case
  proof (cases "byte < btd")
    case False
    then have "\<not> unat byte < unat btd" by (simp add: word_less_nat_alt)
    with False show ?thesis by (subst image_byte_loop.simps) simp
  next
    case True
    then have u: "unat byte < unat btd" by (simp add: word_less_nat_alt)
    from "1.IH" [OF True refl] True show ?thesis
      by (subst image_byte_loop.simps) (simp add: upt_head [OF u] unat_succ_below [OF True])
  qed
qed

lemma image_line_loop_fold:
  "image_line_loop put W H x y input btd height line s
     = fold (\<lambda>l. image_byte_loop put W x (y + l) input btd l 0)
         (takeWhile (\<lambda>l. y + l < H) (map of_nat [unat line..<unat height])) s"
proof (induction put W H x y input btd height line s rule: image_line_loop.induct)
  case (1 put W H x y input btd height line s)
  show ?case
  proof (cases "line < height")
    case False
    then have "\<not> unat line < unat height" by (simp add: word_less_nat_alt)
    with False show ?thesis by (subst image_line_loop.simps) simp
  next
    case True
    then have u: "unat line < unat height" by (simp add: word_less_nat_alt)
    show ?thesis
    proof (cases "H \<le> y + line")
      case True
      with \<open>line < height\<close> leD [OF True] show ?thesis
        by (subst image_line_loop.simps) (simp add: upt_head [OF u])
    next
      case False
      have "image_line_loop put W H x y input btd height line s
          = image_line_loop put W H x y input btd height (line + 1)
              (image_byte_loop put W x (y + line) input btd line 0 s)"
        by (subst image_line_loop.simps) (simp only: \<open>line < height\<close> False Let_def if_True if_False)
      with "1.IH" [OF \<open>line < height\<close> refl False] False show ?thesis
        by (simp add: upt_head [OF u] unat_succ_below [OF \<open>line < height\<close>] not_le)
    qed
  qed
qed

subsection \<open>Image compositor: the list of writes\<close>

lemma fold_concat_map: "fold F (concat (map g xs)) = fold (\<lambda>a. fold F (g a)) xs"
  by (induction xs) simp_all

lemma fold_snoc_concat:
  "(\<And>a acc. F a acc = acc @ g a) \<Longrightarrow> fold F xs acc = acc @ concat (map g xs)"
  by (induction xs arbitrary: acc) simp_all

lemma image_pixel_loop_sink:
  "image_pixel_loop put W x (y + line) btd byte (ucast (input (byte + line * btd))) 0
     = fold (\<lambda>w. case w of (xa, ya, ib, p) \<Rightarrow> put xa ya ib p)
         (image_group W x y input btd line byte)"
  by (rule ext) (simp add: image_pixel_loop_fold image_group_def image_pixels_def fold_map comp_def)

lemma image_byte_loop_sink:
  "image_byte_loop put W x (y + line) input btd line 0
     = fold (\<lambda>w. case w of (xa, ya, ib, p) \<Rightarrow> put xa ya ib p)
         (image_row W x y input btd line)"
  by (rule ext) (simp add: image_byte_loop_fold image_pixel_loop_sink image_row_def fold_concat_map
      fold_map comp_def)

lemma drawImage_gen_sink:
  "drawImage_gen put W H x y input width height s
     = fold (\<lambda>w. case w of (xa, ya, ib, p) \<Rightarrow> put xa ya ib p)
         (image_write_list W H x y input width height) s"
  by (simp add: drawImage_gen_def image_line_loop_fold image_byte_loop_sink image_write_list_def
      image_lines_def fold_concat_map)

lemma drawImage_writes_list:
  "drawImage_writes W H x y input width height = image_write_list W H x y input width height"
proof -
  have "fold (\<lambda>w. case w of (xa, ya, ib, p) \<Rightarrow> rec_image_put xa ya ib p) ws acc = acc @ ws"
    for ws acc
    by (induction ws arbitrary: acc) (auto simp: rec_image_put_def)
  then show ?thesis by (simp add: drawImage_writes_def drawImage_gen_sink)
qed

subsection \<open>Image compositor: one write\<close>

lemma input_pixel_bit:
  "unat p < 8 \<Longrightarrow> (ucast ((ib::u32) AND 2 ^ unat (p::u32)) :: u8) \<noteq> 0 \<longleftrightarrow> bit ib (unat p)"
proof -
  assume p: "unat p < 8"
  have "(ucast (ib AND 2 ^ unat p) :: u8) = 0 \<longleftrightarrow> \<not> bit ib (unat p)"
  proof
    assume z: "(ucast (ib AND 2 ^ unat p) :: u8) = 0"
    have "bit (ucast (ib AND 2 ^ unat p) :: u8) (unat p) = bit ib (unat p)"
      using p by (auto simp: bit_simps)
    with z show "\<not> bit ib (unat p)" by simp
  next
    assume "\<not> bit ib (unat p)"
    then show "(ucast (ib AND 2 ^ unat p) :: u8) = 0"
      by (intro bit_word_eqI) (auto simp: bit_simps)
  qed
  then show ?thesis by blast
qed

lemma bit_255: "bit (255 :: int) n \<longleftrightarrow> n < 8"
proof -
  have "bit (mask 8 :: int) n \<longleftrightarrow> n < 8"
    unfolding bit_mask_iff by auto
  moreover have "(mask 8 :: int) = 255" by (simp add: mask_eq_exp_minus_1)
  ultimately show ?thesis by simp
qed

lemma image_put_bits:
  assumes "valid_geometry W H" "length buf = buffer_size W H" "xa < W" "ya < H" "unat p < 8"
  shows "\<exists>buf'. image_put W mode xa ya ib p buf = Some buf' \<and> length buf' = length buf \<and>
     (\<forall>i<length buf. \<forall>n<8. bit (buf' ! i) n =
        (if i = unat xa + unat W * (unat ya div 8) \<and> n = unat ya mod 8
         then mode_effect mode (bit ib (unat p)) (bit (buf ! i) n)
         else bit (buf ! i) n))"
proof -
  note a = pixel_addr [OF assms(1,3,4)]
  note ip = input_pixel_bit [OF assms(5), of ib]
  have ip0: "(ucast (ib AND 2 ^ unat p) :: u8) = 0 \<longleftrightarrow> \<not> bit ib (unat p)"
    using ip by blast
  consider "mode = 0" | "mode = 1" | "mode = 2" | "mode = 3" | "mode = 4" | "mode = 5"
    | "mode \<noteq> 0 \<and> mode \<noteq> 1 \<and> mode \<noteq> 2 \<and> mode \<noteq> 3 \<and> mode \<noteq> 4 \<and> mode \<noteq> 5"
    by blast
  then show ?thesis
  proof cases
    case 1
    with a assms(2) show ?thesis
      by (auto simp: image_put_def buf_update_def Let_def unat_and7 nth_list_update bit_simps
          mode_effect_def ip ip0 bit_255)
  next
    case 2
    with a assms(2) show ?thesis
      by (auto simp: image_put_def buf_update_def Let_def unat_and7 nth_list_update bit_simps
          mode_effect_def ip ip0 bit_255)
  next
    case 3
    with a assms(2) show ?thesis
      by (auto simp: image_put_def buf_update_def Let_def unat_and7 nth_list_update bit_simps
          mode_effect_def ip ip0 bit_255)
  next
    case 4
    with a assms(2) show ?thesis
      by (auto simp: image_put_def buf_update_def Let_def unat_and7 nth_list_update bit_simps
          mode_effect_def ip ip0 bit_255)
  next
    case 5
    with a assms(2) show ?thesis
      by (auto simp: image_put_def buf_update_def Let_def unat_and7 nth_list_update bit_simps
          mode_effect_def ip ip0 bit_255)
  next
    case 6
    with a assms(2) show ?thesis
      by (auto simp: image_put_def buf_update_def Let_def unat_and7 nth_list_update bit_simps
          mode_effect_def ip ip0 bit_255)
  next
    case 7
    then show ?thesis
      by (auto simp: image_put_def Let_def mode_effect_def)
  qed
qed

subsection \<open>Image compositor: the iteration space\<close>

lemma unat_of_nat_below: "k < unat (n::u32) \<Longrightarrow> unat (of_nat k :: u32) = k"
proof -
  assume "k < unat n"
  moreover have "unat n < 2 ^ 32" using unsigned_less [of n, where 'a = nat] by simp
  ultimately show ?thesis by (simp add: unat_of_nat)
qed

lemma word_upt_mem: "b \<in> set (map of_nat [0..<unat n]) \<longleftrightarrow> b < (n::u32)"
proof
  assume "b \<in> set (map of_nat [0..<unat n])"
  then obtain k where k: "k < unat n" "b = of_nat k" by auto
  then show "b < n" by (simp add: word_less_nat_alt unat_of_nat_below)
next
  assume "b < n"
  then have "unat b \<in> set [0..<unat n]" by (simp add: word_less_nat_alt)
  then have "of_nat (unat b) \<in> (of_nat :: nat \<Rightarrow> u32) ` set [0..<unat n]"
    by (rule imageI)
  then show "b \<in> set (map of_nat [0..<unat n])" by simp
qed

lemma word_upt_distinct: "distinct (map of_nat [0..<unat (n::u32)] :: u32 list)"
proof -
  have "inj_on (of_nat :: nat \<Rightarrow> u32) (set [0..<unat n])"
  proof (rule inj_onI)
    fix a b assume "a \<in> set [0..<unat n]" "b \<in> set [0..<unat n]"
      and e: "(of_nat a :: u32) = of_nat b"
    then have "a < unat n" "b < unat n" by simp_all
    then have "unat (of_nat a :: u32) = a" "unat (of_nat b :: u32) = b"
      by (simp_all only: unat_of_nat_below)
    with e show "a = b" by metis
  qed
  then show ?thesis by (simp add: distinct_map)
qed

lemma image_lines_facts:
  "distinct (image_lines H y height)"
  "l \<in> set (image_lines H y height) \<Longrightarrow> l < height \<and> y + l < H"
proof -
  show "distinct (image_lines H y height)"
    unfolding image_lines_def by (rule distinct_takeWhile) (rule word_upt_distinct)
  assume "l \<in> set (image_lines H y height)"
  then have "l \<in> set (map of_nat [0..<unat height]) \<and> y + l < H"
    unfolding image_lines_def by (rule set_takeWhileD)
  then show "l < height \<and> y + l < H" by (simp only: word_upt_mem)
qed

lemma image_pixels_facts:
  "distinct (image_pixels W x btd b)"
  "p \<in> set (image_pixels W x btd b) \<Longrightarrow> unat p < 8 \<and> x + 8 * (btd - b) + p < W"
proof -
  have e: "[0..<8] = [0..<unat (8::u32)]" by simp
  show "distinct (image_pixels W x btd b)"
    unfolding image_pixels_def e by (rule distinct_takeWhile) (rule word_upt_distinct)
  assume "p \<in> set (image_pixels W x btd b)"
  then have "p \<in> set (map of_nat [0..<unat (8::u32)]) \<and> x + 8 * (btd - b) + p < W"
    unfolding image_pixels_def e by (rule set_takeWhileD)
  then have "p < 8 \<and> x + 8 * (btd - b) + p < W" by (simp only: word_upt_mem)
  then show "unat p < 8 \<and> x + 8 * (btd - b) + p < W" by (simp add: word_less_nat_alt)
qed

lemma group_offset:
  assumes "b < width div 8" "unat p < 8"
  shows "unat (8 * (width div 8 - b) + p) = 8 * (unat (width div 8) - unat b) + unat (p::u32)"
proof -
  have B: "unat (width div 8) = unat width div 8" by (simp add: unat_div)
  have w: "unat width < 4294967296" using unsigned_less [of width, where 'a = nat] by simp
  from w have "unat width div 8 < 536870912" by simp
  then have B8: "8 * unat (width div 8) + 8 \<le> 4294967296" unfolding B by linarith
  from assms(1) have ub: "unat b < unat (width div 8)" by (simp add: word_less_nat_alt)
  from assms(1) have d: "unat (width div 8 - b) = unat (width div 8) - unat b"
    by (simp add: unat_sub)
  have "unat (8::u32) * unat (width div 8 - b) < 2 ^ 32"
    using B8 ub unfolding d by simp
  have s: "8 * (unat (width div 8) - unat b) + unat p < 4294967296"
    using B8 ub assms(2) unfolding diff_mult_distrib2 by linarith
  then have m: "unat (8 * (width div 8 - b)) = 8 * (unat (width div 8) - unat b)"
    using unat_mult_lem [of 8 "width div 8 - b"] unfolding d by simp
  have "unat (8 * (width div 8 - b)) + unat p < 2 ^ 32"
    using s unfolding m by simp
  then show ?thesis
    using unat_add_lem [of "8 * (width div 8 - b)" p] unfolding m by simp
qed

lemma column_inj:
  assumes "b < width div 8" "b' < width div 8" "unat p < 8" "unat p' < 8"
    and "x + 8 * (width div 8 - b) + p = x + 8 * (width div 8 - b') + (p'::u32)"
  shows "b = b' \<and> p = p'"
proof -
  from assms(5) have "x + (8 * (width div 8 - b) + p) = x + (8 * (width div 8 - b') + p')"
    by (simp only: add.assoc)
  then have "8 * (width div 8 - b) + p = 8 * (width div 8 - b') + p'"
    by (simp only: add_left_cancel)
  then have "unat (8 * (width div 8 - b) + p) = unat (8 * (width div 8 - b') + p')"
    by (rule arg_cong)
  then have e: "8 * (unat (width div 8) - unat b) + unat p
      = 8 * (unat (width div 8) - unat b') + unat p'"
    by (simp only: group_offset [OF assms(1,3)] group_offset [OF assms(2,4)])
  from assms(1,2) have ub: "unat b < unat (width div 8)" "unat b' < unat (width div 8)"
    by (simp_all add: word_less_nat_alt)
  from e have "(8 * (unat (width div 8) - unat b) + unat p) mod 8
      = (8 * (unat (width div 8) - unat b') + unat p') mod 8" by (rule arg_cong)
  with assms(3,4) have pp: "unat p = unat p'" by simp
  with e have "unat (width div 8) - unat b = unat (width div 8) - unat b'" by simp
  with ub have "unat b = unat b'" by linarith
  with pp show ?thesis by (simp add: word_unat_eq_iff)
qed

subsection \<open>Image compositor: the pixels after a call\<close>

lemma image_put_pixel_at:
  assumes "valid_geometry W H" "length buf = buffer_size W H" "xa < W" "ya < H" "unat p < 8"
  shows "\<exists>buf'. image_put W mode xa ya ib p buf = Some buf' \<and> length buf' = length buf \<and>
     (\<forall>x' y'. x' < W \<longrightarrow> y' < H \<longrightarrow>
        pixel_at W buf' x' y' = pixel_hit mode x' y' (xa, ya, ib, p) (pixel_at W buf x' y'))"
proof -
  from image_put_bits [OF assms, of mode ib] obtain buf' where
    s: "image_put W mode xa ya ib p buf = Some buf'" and l: "length buf' = length buf"
    and b: "\<And>i n. i < length buf \<Longrightarrow> n < 8 \<Longrightarrow> bit (buf' ! i) n =
        (if i = unat xa + unat W * (unat ya div 8) \<and> n = unat ya mod 8
         then mode_effect mode (bit ib (unat p)) (bit (buf ! i) n)
         else bit (buf ! i) n)"
    by blast
  have "pixel_at W buf' x' y' = pixel_hit mode x' y' (xa, ya, ib, p) (pixel_at W buf x' y')"
    if x': "x' < W" and y': "y' < H" for x' y'
  proof -
    have i: "unat x' + unat W * (unat y' div 8) < length buf"
      using pixel_addr(2) [OF assms(1) x' y'] assms(2) by simp
    have n: "unat y' mod 8 < 8" by simp
    have e: "(unat x' + unat W * (unat y' div 8) = unat xa + unat W * (unat ya div 8)
          \<and> unat y' mod 8 = unat ya mod 8) \<longleftrightarrow> (xa = x' \<and> ya = y')"
      using addr_inj [of x' "unat W" xa y' ya] assms(3) x' by (auto simp: word_less_nat_alt)
    show ?thesis unfolding pixel_at_def b [OF i n] e pixel_hit_def by simp
  qed
  with s l show ?thesis by blast
qed

lemma image_fold_pixels:
  assumes "valid_geometry W H" "length buf = buffer_size W H"
    and "\<forall>w\<in>set ws. case w of (xa, ya, ib, p) \<Rightarrow> xa < W \<and> ya < H \<and> unat p < 8"
  shows "\<exists>buf'. fold (\<lambda>w. case w of (xa, ya, ib, p) \<Rightarrow> fb_image_put W mode xa ya ib p) ws (Some buf)
            = Some buf' \<and> length buf' = length buf \<and>
     (\<forall>x' y'. x' < W \<longrightarrow> y' < H \<longrightarrow>
        pixel_at W buf' x' y' = fold (pixel_hit mode x' y') ws (pixel_at W buf x' y'))"
  using assms(2,3)
proof (induction ws arbitrary: buf)
  case Nil
  then show ?case by simp
next
  case (Cons w ws)
  obtain xa ya ib p where w: "w = (xa, ya, ib, p)" by (cases w) auto
  from Cons.prems(2) have r: "xa < W" "ya < H" "unat p < 8" by (simp_all add: w)
  from image_put_pixel_at [OF assms(1) Cons.prems(1) r, of mode ib] obtain buf1 where
    s: "image_put W mode xa ya ib p buf = Some buf1" and l: "length buf1 = length buf"
    and b: "\<And>x' y'. x' < W \<Longrightarrow> y' < H \<Longrightarrow>
        pixel_at W buf1 x' y' = pixel_hit mode x' y' (xa, ya, ib, p) (pixel_at W buf x' y')"
    by blast
  from l Cons.prems(1) have l1: "length buf1 = buffer_size W H" by simp
  from Cons.prems(2)
  have r2: "\<forall>w\<in>set ws. case w of (xa, ya, ib, p) \<Rightarrow> xa < W \<and> ya < H \<and> unat p < 8"
    by simp
  from Cons.IH [OF l1 r2] obtain buf' where
    s': "fold (\<lambda>w. case w of (xa, ya, ib, p) \<Rightarrow> fb_image_put W mode xa ya ib p) ws (Some buf1)
            = Some buf'"
    and l': "length buf' = length buf1"
    and b': "\<And>x' y'. x' < W \<Longrightarrow> y' < H \<Longrightarrow>
        pixel_at W buf' x' y' = fold (pixel_hit mode x' y') ws (pixel_at W buf1 x' y')"
    by blast
  have "fold (\<lambda>w. case w of (xa, ya, ib, p) \<Rightarrow> fb_image_put W mode xa ya ib p) (w # ws) (Some buf)
      = Some buf'"
    using s s' by (simp add: w fb_image_put_def)
  moreover have "length buf' = length buf" using l l' by simp
  moreover have "pixel_at W buf' x' y' = fold (pixel_hit mode x' y') (w # ws) (pixel_at W buf x' y')"
    if "x' < W" "y' < H" for x' y'
    using b [OF that] b' [OF that] by (simp add: w)
  ultimately show ?case by blast
qed

lemma fold_no_hit: "(\<And>a v. a \<in> set xs \<Longrightarrow> g a v = v) \<Longrightarrow> fold g xs v = v"
  by (induction xs arbitrary: v) simp_all

lemma fold_single_hit:
  assumes "distinct xs" "a \<in> set xs" "\<And>b v. b \<in> set xs \<Longrightarrow> b \<noteq> a \<Longrightarrow> g b v = v"
  shows "fold g xs v = g a v"
proof -
  from assms(2) obtain ys zs where xs: "xs = ys @ a # zs" by (auto dest: split_list)
  with assms(1) have n: "a \<notin> set ys" "a \<notin> set zs" by auto
  have "fold g ys v = v" for v
    using n(1) assms(3) by (intro fold_no_hit) (auto simp: xs)
  moreover have "fold g zs v = v" for v
    using n(2) assms(3) by (intro fold_no_hit) (auto simp: xs)
  ultimately show ?thesis by (simp add: xs)
qed

lemma concat_map_mem: "w \<in> set (concat (map g bs)) \<longleftrightarrow> (\<exists>b. b \<in> set bs \<and> w \<in> set (g b))"
  by auto

lemma image_group_mem:
  "w \<in> set (image_group W x y input btd l b) \<longleftrightarrow>
     (\<exists>p. p \<in> set (image_pixels W x btd b) \<and>
        w = (x + 8 * (btd - b) + p, y + l, ucast (input (b + l * btd)), p))"
  unfolding image_group_def by auto

lemma image_row_mem:
  "w \<in> set (image_row W x y input btd l) \<longleftrightarrow>
     (\<exists>b. b < btd \<and> w \<in> set (image_group W x y input btd l b))"
  unfolding image_row_def concat_map_mem word_upt_mem ..

lemma image_write_mem:
  "w \<in> set (image_write_list W H x y input width height) \<longleftrightarrow>
     (\<exists>l b p. l \<in> set (image_lines H y height) \<and> b < width div 8 \<and>
        p \<in> set (image_pixels W x (width div 8) b) \<and>
        w = (x + 8 * (width div 8 - b) + p, y + l, ucast (input (b + l * (width div 8))), p))"
  unfolding image_write_list_def concat_map_mem image_row_mem image_group_mem by blast

lemma image_write_in_range:
  "\<forall>w\<in>set (image_write_list W H x y input width height).
     case w of (xa, ya, ib, p) \<Rightarrow> xa < W \<and> ya < H \<and> unat p < 8"
proof (intro ballI, clarify)
  fix xa ya ib p
  assume "(xa, ya, ib, p) \<in> set (image_write_list W H x y input width height)"
  then obtain l b where l: "l \<in> set (image_lines H y height)"
    and p: "p \<in> set (image_pixels W x (width div 8) b)"
    and xa: "xa = x + 8 * (width div 8 - b) + p" and ya: "ya = y + l"
    unfolding image_write_mem by blast
  from image_lines_facts(2) [OF l] image_pixels_facts(2) [OF p]
  show "xa < W \<and> ya < H \<and> unat p < 8"
    by (simp add: xa ya)
qed

lemma image_fold_miss:
  assumes "\<forall>w\<in>set ws. fst w \<noteq> x' \<or> fst (snd w) \<noteq> y'"
  shows "fold (pixel_hit mode x' y') ws v = v"
proof (rule fold_no_hit)
  fix a v assume "a \<in> set ws"
  with assms have "fst a \<noteq> x' \<or> fst (snd a) \<noteq> y'" by blast
  then show "pixel_hit mode x' y' a v = v"
    by (cases a) (auto simp: pixel_hit_def)
qed

lemma image_fold_hit:
  assumes l0: "l0 \<in> set (image_lines H y height)" and b0: "b0 < width div 8"
    and p0: "p0 \<in> set (image_pixels W x (width div 8) b0)"
  shows "fold (pixel_hit mode (x + 8 * (width div 8 - b0) + p0) (y + l0))
           (image_write_list W H x y input width height) v
         = mode_effect mode (bit (ucast (input (b0 + l0 * (width div 8))) :: u32) (unat p0)) v"
proof -
  let ?btd = "width div 8"
  let ?X = "x + 8 * (?btd - b0) + p0"
  let ?h = "pixel_hit mode ?X (y + l0)"
  from image_pixels_facts(2) [OF p0] have up0: "unat p0 < 8" by simp
  have rows: "fold ?h (image_row W x y input ?btd l) v = v"
    if "l \<noteq> l0" for l v
  proof (rule fold_no_hit)
    fix a v assume "a \<in> set (image_row W x y input ?btd l)"
    then obtain xa ib p where "a = (xa, y + l, ib, p)"
      unfolding image_row_mem image_group_mem by blast
    with that show "?h a v = v" by (simp add: pixel_hit_def)
  qed
  have groups: "fold ?h (image_group W x y input ?btd l0 b) v = v"
    if "b < ?btd" "b \<noteq> b0" for b v
  proof (rule fold_no_hit)
    fix a v assume "a \<in> set (image_group W x y input ?btd l0 b)"
    then obtain p where p: "p \<in> set (image_pixels W x ?btd b)"
      and a: "a = (x + 8 * (?btd - b) + p, y + l0, ucast (input (b + l0 * ?btd)), p)"
      unfolding image_group_mem by blast
    from image_pixels_facts(2) [OF p] have "unat p < 8" by simp
    with column_inj [OF that(1) b0 _ up0, of p x] that(2)
    have "x + 8 * (?btd - b) + p \<noteq> ?X" by blast
    then show "?h a v = v" by (simp add: a pixel_hit_def)
  qed
  have pixels: "?h (x + 8 * (?btd - b0) + p, y + l0, ib, p) v = v"
    if "p \<in> set (image_pixels W x ?btd b0)" "p \<noteq> p0" for p ib v
  proof -
    from image_pixels_facts(2) [OF that(1)] have "unat p < 8" by simp
    with column_inj [OF b0 b0 _ up0, of p x] that(2)
    have "x + 8 * (?btd - b0) + p \<noteq> ?X" by blast
    then show ?thesis by (simp add: pixel_hit_def)
  qed
  have "fold ?h (image_write_list W H x y input width height) v
      = fold (\<lambda>l. fold ?h (image_row W x y input ?btd l)) (image_lines H y height) v"
    by (simp only: image_write_list_def fold_concat_map)
  also have "\<dots> = fold ?h (image_row W x y input ?btd l0) v"
    by (rule fold_single_hit [OF image_lines_facts(1) l0]) (rule rows)
  also have "\<dots> = fold (\<lambda>b. fold ?h (image_group W x y input ?btd l0 b))
      (map of_nat [0..<unat ?btd]) v"
    by (simp only: image_row_def fold_concat_map)
  also have "\<dots> = fold ?h (image_group W x y input ?btd l0 b0) v"
  proof (rule fold_single_hit [OF word_upt_distinct])
    show "b0 \<in> set (map of_nat [0..<unat ?btd])" using b0 by (simp only: word_upt_mem)
    fix b v assume m: "b \<in> set (map of_nat [0..<unat ?btd])" and ne: "b \<noteq> b0"
    from m have "b < ?btd" by (simp only: word_upt_mem)
    from this ne show "fold ?h (image_group W x y input ?btd l0 b) v = v" by (rule groups)
  qed
  also have "\<dots> = fold (\<lambda>p. ?h (x + 8 * (?btd - b0) + p, y + l0,
      ucast (input (b0 + l0 * ?btd)), p)) (image_pixels W x ?btd b0) v"
    by (simp only: image_group_def fold_map comp_def)
  also have "\<dots> = ?h (?X, y + l0, ucast (input (b0 + l0 * ?btd)), p0) v"
    by (rule fold_single_hit [OF image_pixels_facts(1) p0]) (rule pixels)
  also have "\<dots> = mode_effect mode (bit (ucast (input (b0 + l0 * ?btd)) :: u32) (unat p0)) v"
    by (simp add: pixel_hit_def)
  finally show ?thesis .
qed

lemma drawImage_fb_fold:
  "ssd1306_drawImage W H x y input width height mode buf
     = fold (\<lambda>w. case w of (xa, ya, ib, p) \<Rightarrow> fb_image_put W mode xa ya ib p)
         (image_write_list W H x y input width height) (Some buf)"
  by (simp only: ssd1306_drawImage_def drawImage_gen_sink)

lemma drawImage_effect:
  assumes "valid_geometry W H" and "length buf = buffer_size W H"
  shows "\<exists>buf'. ssd1306_drawImage W H x y input width height mode buf = Some buf' \<and>
           length buf' = length buf \<and>
           (\<forall>w\<in>set (drawImage_writes W H x y input width height).
              case w of (xa, ya, ib, p) \<Rightarrow>
                xa < W \<and> ya < H \<and>
                pixel_at W buf' xa ya = mode_effect mode (bit ib (unat p)) (pixel_at W buf xa ya)) \<and>
           (\<forall>x' y'. x' < W \<and> y' < H \<and>
                (\<forall>w\<in>set (drawImage_writes W H x y input width height).
                    fst w \<noteq> x' \<or> fst (snd w) \<noteq> y')
              \<longrightarrow> pixel_at W buf' x' y' = pixel_at W buf x' y')"
proof -
  let ?ws = "image_write_list W H x y input width height"
  from image_fold_pixels [OF assms image_write_in_range [of W H x y input width height],
      where mode = mode]
  obtain buf' where
    s: "ssd1306_drawImage W H x y input width height mode buf = Some buf'"
    and l: "length buf' = length buf"
    and b: "\<And>x' y'. x' < W \<Longrightarrow> y' < H \<Longrightarrow>
        pixel_at W buf' x' y' = fold (pixel_hit mode x' y') ?ws (pixel_at W buf x' y')"
    unfolding drawImage_fb_fold by blast
  have hit: "case w of (xa, ya, ib, p) \<Rightarrow>
                xa < W \<and> ya < H \<and>
                pixel_at W buf' xa ya = mode_effect mode (bit ib (unat p)) (pixel_at W buf xa ya)"
    if w: "w \<in> set ?ws" for w
  proof -
    from w obtain l0 b0 p0 where l0: "l0 \<in> set (image_lines H y height)"
      and b0: "b0 < width div 8" and p0: "p0 \<in> set (image_pixels W x (width div 8) b0)"
      and e: "w = (x + 8 * (width div 8 - b0) + p0, y + l0,
                   ucast (input (b0 + l0 * (width div 8))), p0)"
      unfolding image_write_mem by blast
    from image_pixels_facts(2) [OF p0] image_lines_facts(2) [OF l0]
    have r: "x + 8 * (width div 8 - b0) + p0 < W" "y + l0 < H" by simp_all
    show ?thesis
      unfolding e using r b [OF r] image_fold_hit [OF l0 b0 p0] by simp
  qed
  have miss: "pixel_at W buf' x' y' = pixel_at W buf x' y'"
    if "x' < W \<and> y' < H \<and> (\<forall>w\<in>set ?ws. fst w \<noteq> x' \<or> fst (snd w) \<noteq> y')" for x' y'
    using that b [of x' y'] image_fold_miss [of ?ws x' y'] by simp
  from s l hit miss show ?thesis
    unfolding drawImage_writes_list by blast
qed


text \<open>
  Claim C2. On a framebuffer of the configured size \<^verbatim>\<open>ssd1306_drawImage\<close> never leaves
  the array, and every write it makes is to a pixel with \<open>x_absolute < W\<close> and
  \<open>y_absolute < H\<close> (a source row that would land at \<open>H\<close> or beyond is not drawn). After
  the call each pixel it has written holds the value the six-mode table gives for the
  mode, the source bit used for that pixel and the pixel's value before the call, and
  every other pixel of the display is unchanged.
\<close>

theorem drawImage_modes:
  assumes "valid_geometry W H" and "length buf = buffer_size W H"
  shows "\<exists>buf'. ssd1306_drawImage W H x y input width height mode buf = Some buf' \<and>
           length buf' = length buf \<and>
           (\<forall>w\<in>set (drawImage_writes W H x y input width height).
              case w of (xa, ya, ib, p) \<Rightarrow>
                xa < W \<and> ya < H \<and>
                pixel_at W buf' xa ya = mode_effect mode (bit ib (unat p)) (pixel_at W buf xa ya)) \<and>
           (\<forall>x' y'. x' < W \<and> y' < H \<and>
                (\<forall>w\<in>set (drawImage_writes W H x y input width height).
                    fst w \<noteq> x' \<or> fst (snd w) \<noteq> y')
              \<longrightarrow> pixel_at W buf' x' y' = pixel_at W buf x' y')"
  by (rule drawImage_effect [OF assms])

lemma example_writes:
  "drawImage_writes 128 64 0 0 (\<lambda>_. 0xFF) 8 1
     = [(8, 0, 255, 0), (9, 0, 255, 1), (10, 0, 255, 2), (11, 0, 255, 3),
        (12, 0, 255, 4), (13, 0, 255, 5), (14, 0, 255, 6), (15, 0, 255, 7)]"
proof -
  have u: "[0..<8] = [0, 1, 2, 3, 4, 5, 6, Suc 6]" "[0..<Suc 0] = [0]"
    by (simp_all add: upt_rec)
  have d: "unat ((8::u32) div 8) = Suc 0" by simp
  show ?thesis
    unfolding drawImage_writes_list image_write_list_def image_lines_def image_row_def
      image_group_def image_pixels_def d
    by (simp add: u del: upt_Suc)
qed

theorem drawImage_modes_witness:
  "valid_geometry 128 64 \<and> length (replicate 1024 (0::u8)) = buffer_size 128 64 \<and>
   (\<exists>buf'. ssd1306_drawImage 128 64 0 0 (\<lambda>_. 0xFF) 8 1 0 (replicate 1024 0) = Some buf' \<and>
      pixel_at 128 buf' 8 0 \<and> \<not> pixel_at 128 buf' 7 0)"
proof -
  have g: "valid_geometry 128 64" by (simp add: valid_geometry_def)
  have l: "length (replicate 1024 (0::u8)) = buffer_size 128 64" by (simp add: buffer_size_def)
  from drawImage_modes [OF g l, of 0 0 "\<lambda>_. 0xFF" 8 1 0] obtain buf' where
    s: "ssd1306_drawImage 128 64 0 0 (\<lambda>_. 0xFF) 8 1 0 (replicate 1024 0) = Some buf'"
    and h: "\<forall>w\<in>set (drawImage_writes 128 64 0 0 (\<lambda>_. 0xFF) 8 1).
              case w of (xa, ya, ib, p) \<Rightarrow>
                xa < 128 \<and> ya < 64 \<and>
                pixel_at 128 buf' xa ya
                  = mode_effect 0 (bit ib (unat p)) (pixel_at 128 (replicate 1024 0) xa ya)"
    and m: "\<forall>x' y'. x' < 128 \<and> y' < 64 \<and>
                (\<forall>w\<in>set (drawImage_writes 128 64 0 0 (\<lambda>_. 0xFF) 8 1).
                    fst w \<noteq> x' \<or> fst (snd w) \<noteq> y')
              \<longrightarrow> pixel_at 128 buf' x' y' = pixel_at 128 (replicate 1024 0) x' y'"
    by blast
  from h have "pixel_at 128 buf' 8 0" by (simp add: example_writes mode_effect_def)
  moreover from m [rule_format, of 7 0] have "\<not> pixel_at 128 buf' 7 0"
    by (simp add: example_writes pixel_at_def)
  ultimately show ?thesis using g l s by blast
qed

subsection \<open>Image compositor: placement of the byte-groups\<close>

lemma column_offset:
  assumes "b < width div 8" "unat p < 8"
  shows "unat (x + 8 * (width div 8 - b) + p - x) = 8 * (unat (width div 8) - unat b) + unat (p::u32)"
proof -
  have "x + 8 * (width div 8 - b) + p - x = 8 * (width div 8 - b) + p" by simp
  then show ?thesis by (simp only: group_offset [OF assms])
qed

lemma pixel_loop_stops:
  "pixel < 8 \<Longrightarrow> W \<le> x + 8 * (btd - byte) + pixel
     \<Longrightarrow> image_pixel_loop put W x ya btd byte ib pixel s = s"
  by (subst image_pixel_loop.simps) (simp only: Let_def if_True)

text \<open>
  Claim C3. What \<^verbatim>\<open>ssd1306_drawImage\<close> leaves on a framebuffer of the configured size.
  Take the source rows \<open>line\<close> up to the first one that would land at \<open>H\<close> or beyond, the
  byte-groups \<open>byte\<close> of a row, and of each group the pixels 0, 1, ... up to the first one
  whose column \<open>x + 8 * (bytes_to_draw - byte) + pixel\<close> is not below \<open>W\<close>. After the call the
  display pixel at that column in row \<open>y + line\<close> holds the value the mode gives from bit
  \<open>pixel\<close> of the source byte \<open>byte + line * bytes_to_draw\<close> and the pixel's old value, and
  every other pixel of the display is as it was: the rest of a truncated byte-group is
  dropped, nothing of it appears in another column or row. The column lies
  \<open>8 * (bytes_to_draw - byte) + pixel\<close> to the right of \<open>x\<close>, so every column of a byte-group
  with a larger index lies left of every column of a group with a smaller index: the
  last byte-group of a source row is drawn leftmost, the first one rightmost. The list
  of the writes in loop order is the same enumeration.
\<close>

theorem drawImage_placement:
  assumes "valid_geometry W H" and "length buf = buffer_size W H"
  shows "\<exists>buf'. ssd1306_drawImage W H x y input width height mode buf = Some buf' \<and>
    (\<forall>line\<in>set (takeWhile (\<lambda>line. y + line < H) (map of_nat [0..<unat height])).
       \<forall>byte. byte < width div 8 \<longrightarrow>
         (\<forall>pixel\<in>set (takeWhile (\<lambda>pixel. x + 8 * (width div 8 - byte) + pixel < W)
                         (map of_nat [0..<8])).
            x + 8 * (width div 8 - byte) + pixel < W \<and> y + line < H \<and>
            unat (x + 8 * (width div 8 - byte) + pixel - x)
              = 8 * (unat (width div 8) - unat byte) + unat pixel \<and>
            pixel_at W buf' (x + 8 * (width div 8 - byte) + pixel) (y + line)
              = mode_effect mode
                  (bit (ucast (input (byte + line * (width div 8))) :: u32) (unat pixel))
                  (pixel_at W buf (x + 8 * (width div 8 - byte) + pixel) (y + line)))) \<and>
    (\<forall>x' y'. x' < W \<and> y' < H \<and>
       (\<forall>line\<in>set (takeWhile (\<lambda>line. y + line < H) (map of_nat [0..<unat height])).
          \<forall>byte. byte < width div 8 \<longrightarrow>
            (\<forall>pixel\<in>set (takeWhile (\<lambda>pixel. x + 8 * (width div 8 - byte) + pixel < W)
                            (map of_nat [0..<8])).
               x' \<noteq> x + 8 * (width div 8 - byte) + pixel \<or> y' \<noteq> y + line))
       \<longrightarrow> pixel_at W buf' x' y' = pixel_at W buf x' y') \<and>
    (\<forall>byte byte' pixel pixel'.
       byte < byte' \<and> byte' < width div 8 \<and> pixel < 8 \<and> pixel' < 8 \<longrightarrow>
         unat (x + 8 * (width div 8 - byte') + pixel' - x)
           < unat (x + 8 * (width div 8 - byte) + pixel - x)) \<and>
    drawImage_writes W H x y input width height
      = concat (map (\<lambda>line.
          concat (map (\<lambda>byte.
            map (\<lambda>pixel. (x + 8 * (width div 8 - byte) + pixel, y + line,
                           ucast (input (byte + line * (width div 8))), pixel))
              (takeWhile (\<lambda>pixel. x + 8 * (width div 8 - byte) + pixel < W) (map of_nat [0..<8])))
            (map of_nat [0..<unat (width div 8)])))
          (takeWhile (\<lambda>line. y + line < H) (map of_nat [0..<unat height])))"
proof -
  let ?ws = "drawImage_writes W H x y input width height"
  let ?btd = "width div 8"
  from drawImage_effect [OF assms, of x y input width height mode] obtain buf' where
    s: "ssd1306_drawImage W H x y input width height mode buf = Some buf'"
    and hit: "\<And>w. w \<in> set ?ws \<Longrightarrow> (case w of (xa, ya, ib, p) \<Rightarrow>
                xa < W \<and> ya < H \<and>
                pixel_at W buf' xa ya = mode_effect mode (bit ib (unat p)) (pixel_at W buf xa ya))"
    and miss: "\<And>x' y'. x' < W \<and> y' < H \<and> (\<forall>w\<in>set ?ws. fst w \<noteq> x' \<or> fst (snd w) \<noteq> y')
              \<Longrightarrow> pixel_at W buf' x' y' = pixel_at W buf x' y'"
    by blast
  have a: "x + 8 * (?btd - byte) + pixel < W \<and> y + line < H \<and>
            unat (x + 8 * (?btd - byte) + pixel - x) = 8 * (unat ?btd - unat byte) + unat pixel \<and>
            pixel_at W buf' (x + 8 * (?btd - byte) + pixel) (y + line)
              = mode_effect mode (bit (ucast (input (byte + line * ?btd)) :: u32) (unat pixel))
                  (pixel_at W buf (x + 8 * (?btd - byte) + pixel) (y + line))"
    if l: "line \<in> set (image_lines H y height)" and b: "byte < ?btd"
      and p: "pixel \<in> set (image_pixels W x ?btd byte)" for line byte pixel
  proof -
    have "(x + 8 * (?btd - byte) + pixel, y + line, ucast (input (byte + line * ?btd)), pixel)
        \<in> set ?ws"
      unfolding drawImage_writes_list image_write_mem using l b p by blast
    from hit [OF this] image_pixels_facts(2) [OF p] column_offset [OF b, of pixel x]
    show ?thesis by simp
  qed
  have c1: "\<forall>line\<in>set (image_lines H y height). \<forall>byte. byte < ?btd \<longrightarrow>
      (\<forall>pixel\<in>set (image_pixels W x ?btd byte).
         x + 8 * (?btd - byte) + pixel < W \<and> y + line < H \<and>
         unat (x + 8 * (?btd - byte) + pixel - x) = 8 * (unat ?btd - unat byte) + unat pixel \<and>
         pixel_at W buf' (x + 8 * (?btd - byte) + pixel) (y + line)
           = mode_effect mode (bit (ucast (input (byte + line * ?btd)) :: u32) (unat pixel))
               (pixel_at W buf (x + 8 * (?btd - byte) + pixel) (y + line)))"
    using a by blast
  have c2: "\<forall>x' y'. x' < W \<and> y' < H \<and>
       (\<forall>line\<in>set (image_lines H y height). \<forall>byte. byte < ?btd \<longrightarrow>
          (\<forall>pixel\<in>set (image_pixels W x ?btd byte).
             x' \<noteq> x + 8 * (?btd - byte) + pixel \<or> y' \<noteq> y + line))
       \<longrightarrow> pixel_at W buf' x' y' = pixel_at W buf x' y'"
  proof (intro allI impI)
    fix x' y'
    assume h: "x' < W \<and> y' < H \<and>
       (\<forall>line\<in>set (image_lines H y height). \<forall>byte. byte < ?btd \<longrightarrow>
          (\<forall>pixel\<in>set (image_pixels W x ?btd byte).
             x' \<noteq> x + 8 * (?btd - byte) + pixel \<or> y' \<noteq> y + line))"
    have "fst w \<noteq> x' \<or> fst (snd w) \<noteq> y'" if "w \<in> set ?ws" for w
    proof -
      from that obtain l b p where l: "l \<in> set (image_lines H y height)" and b: "b < ?btd"
        and p: "p \<in> set (image_pixels W x ?btd b)"
        and e: "w = (x + 8 * (?btd - b) + p, y + l, ucast (input (b + l * ?btd)), p)"
        unfolding drawImage_writes_list image_write_mem by blast
      from h l b p have "x' \<noteq> x + 8 * (?btd - b) + p \<or> y' \<noteq> y + l" by blast
      then show ?thesis unfolding e by auto
    qed
    with h show "pixel_at W buf' x' y' = pixel_at W buf x' y'" by (intro miss) blast
  qed
  have c3: "\<forall>byte byte' pixel pixel'.
       byte < byte' \<and> byte' < ?btd \<and> pixel < 8 \<and> pixel' < 8 \<longrightarrow>
         unat (x + 8 * (?btd - byte') + pixel' - x) < unat (x + 8 * (?btd - byte) + pixel - x)"
  proof (intro allI impI)
    fix byte byte' pixel pixel' :: u32
    assume a: "byte < byte' \<and> byte' < ?btd \<and> pixel < 8 \<and> pixel' < 8"
    then have b: "byte < ?btd" by auto
    from a have u: "unat byte < unat byte'" "unat byte' < unat ?btd"
      "unat pixel < 8" "unat pixel' < 8"
      by (simp_all add: word_less_nat_alt)
    have "8 * (unat ?btd - unat byte') + unat pixel' < 8 * (unat ?btd - unat byte) + unat pixel"
      using u unfolding diff_mult_distrib2 by linarith
    moreover from a have b': "byte' < ?btd" by simp
    ultimately show "unat (x + 8 * (?btd - byte') + pixel' - x)
        < unat (x + 8 * (?btd - byte) + pixel - x)"
      by (simp only: column_offset [OF b u(3)] column_offset [OF b' u(4)])
  qed
  have c4: "?ws
      = concat (map (\<lambda>line.
          concat (map (\<lambda>byte.
            map (\<lambda>pixel. (x + 8 * (?btd - byte) + pixel, y + line,
                           ucast (input (byte + line * ?btd)), pixel))
              (takeWhile (\<lambda>pixel. x + 8 * (?btd - byte) + pixel < W) (map of_nat [0..<8])))
            (map of_nat [0..<unat ?btd])))
          (takeWhile (\<lambda>line. y + line < H) (map of_nat [0..<unat height])))"
    unfolding drawImage_writes_list image_write_list_def image_lines_def
      image_row_def image_group_def image_pixels_def ..
  from s c1 c2 c3 c4 show ?thesis
    unfolding image_lines_def image_pixels_def by (intro exI [of _ buf'] conjI)
qed

theorem drawImage_placement_witness:
  "valid_geometry 128 64 \<and> length (replicate 1024 (0::u8)) = buffer_size 128 64 \<and>
   (0::u32) \<in> set (takeWhile (\<lambda>line. 0 + line < (64::u32)) (map of_nat [0..<unat (1::u32)])) \<and>
   (0::u32) < 16 div 8 \<and>
   (2::u32) \<in> set (takeWhile (\<lambda>pixel. 109 + 8 * (16 div 8 - 0) + pixel < (128::u32))
                     (map of_nat [0..<8])) \<and>
   (0::u32) < 1 \<and> (1::u32) < 16 div 8 \<and> (0::u32) < 8 \<and> (7::u32) < 8 \<and>
   (\<exists>buf'. ssd1306_drawImage 128 64 109 0 (\<lambda>i. if i = 0 then 0xFF else 0) 16 1 0
              (replicate 1024 0) = Some buf' \<and>
      pixel_at 128 buf' 127 0 \<and> \<not> pixel_at 128 buf' 0 1 \<and>
      unat ((109::u32) + 8 * (16 div 8 - 1) + 7 - 109) < unat ((109::u32) + 8 * (16 div 8 - 0) + 0 - 109))"
proof -
  have g: "valid_geometry 128 64" by (simp add: valid_geometry_def)
  have l: "length (replicate 1024 (0::u8)) = buffer_size 128 64" by (simp add: buffer_size_def)
  have u: "[0..<8] = [0, 1, 2, 3, 4, 5, 6, Suc 6]" by (simp add: upt_rec)
  have hl: "(0::u32) \<in> set (takeWhile (\<lambda>line. 0 + line < (64::u32)) (map of_nat [0..<unat (1::u32)]))"
    by simp
  have hb: "(0::u32) < 16 div 8" by simp
  have hp: "(2::u32) \<in> set (takeWhile (\<lambda>pixel. 109 + 8 * (16 div 8 - 0) + pixel < (128::u32))
                     (map of_nat [0..<8]))"
    by (simp add: u del: upt_Suc)
  have ho: "(0::u32) < 1 \<and> (1::u32) < 16 div 8 \<and> (0::u32) < 8 \<and> (7::u32) < 8" by simp
  from drawImage_placement [OF g l, of 109 0 "\<lambda>i. if i = 0 then 0xFF else 0" 16 1 0]
  obtain buf' where
    s: "ssd1306_drawImage 128 64 109 0 (\<lambda>i. if i = 0 then 0xFF else 0) 16 1 0 (replicate 1024 0)
          = Some buf'"
    and a: "\<forall>line\<in>set (takeWhile (\<lambda>line. 0 + line < (64::u32)) (map of_nat [0..<unat (1::u32)])).
       \<forall>byte. byte < 16 div 8 \<longrightarrow>
         (\<forall>pixel\<in>set (takeWhile (\<lambda>pixel. 109 + 8 * (16 div 8 - byte) + pixel < (128::u32))
                         (map of_nat [0..<8])).
            109 + 8 * (16 div 8 - byte) + pixel < (128::u32) \<and> 0 + line < (64::u32) \<and>
            unat (109 + 8 * (16 div 8 - byte) + pixel - 109)
              = 8 * (unat ((16::u32) div 8) - unat byte) + unat pixel \<and>
            pixel_at 128 buf' (109 + 8 * (16 div 8 - byte) + pixel) (0 + line)
              = mode_effect 0
                  (bit (ucast (if byte + line * (16 div 8) = 0 then 0xFF else (0::u8)) :: u32) (unat pixel))
                  (pixel_at 128 (replicate 1024 0) (109 + 8 * (16 div 8 - byte) + pixel) (0 + line)))"
    and f: "\<forall>x' y'. x' < 128 \<and> y' < 64 \<and>
       (\<forall>line\<in>set (takeWhile (\<lambda>line. 0 + line < (64::u32)) (map of_nat [0..<unat (1::u32)])).
          \<forall>byte. byte < 16 div 8 \<longrightarrow>
            (\<forall>pixel\<in>set (takeWhile (\<lambda>pixel. 109 + 8 * (16 div 8 - byte) + pixel < (128::u32))
                            (map of_nat [0..<8])).
               x' \<noteq> 109 + 8 * (16 div 8 - byte) + pixel \<or> y' \<noteq> 0 + line))
       \<longrightarrow> pixel_at 128 buf' x' y' = pixel_at 128 (replicate 1024 0) x' y'"
    and o: "\<forall>byte byte' pixel pixel'.
       byte < byte' \<and> byte' < 16 div 8 \<and> pixel < 8 \<and> pixel' < 8 \<longrightarrow>
         unat ((109::u32) + 8 * (16 div 8 - byte') + pixel' - 109)
           < unat ((109::u32) + 8 * (16 div 8 - byte) + pixel - 109)"
    by (elim exE conjE)
  from a [rule_format, OF hl hb hp] have p1: "pixel_at 128 buf' 127 0"
    by (simp add: mode_effect_def)
  have "(0::u32) < 128 \<and> (1::u32) < 64 \<and>
       (\<forall>line\<in>set (takeWhile (\<lambda>line. 0 + line < (64::u32)) (map of_nat [0..<unat (1::u32)])).
          \<forall>byte. byte < 16 div 8 \<longrightarrow>
            (\<forall>pixel\<in>set (takeWhile (\<lambda>pixel. 109 + 8 * (16 div 8 - byte) + pixel < (128::u32))
                            (map of_nat [0..<8])).
               (0::u32) \<noteq> 109 + 8 * (16 div 8 - byte) + pixel \<or> (1::u32) \<noteq> 0 + line))"
    by simp
  from f [rule_format, OF this] have p2: "\<not> pixel_at 128 buf' 0 1"
    by (simp add: pixel_at_def)
  from o [rule_format, of 0 1 0 7, OF ho]
  have p3: "unat ((109::u32) + 8 * (16 div 8 - 1) + 7 - 109)
      < unat ((109::u32) + 8 * (16 div 8 - 0) + 0 - 109)" .
  have e: "\<exists>buf'. ssd1306_drawImage 128 64 109 0 (\<lambda>i. if i = 0 then 0xFF else 0) 16 1 0
              (replicate 1024 0) = Some buf' \<and>
      pixel_at 128 buf' 127 0 \<and> \<not> pixel_at 128 buf' 0 1 \<and>
      unat ((109::u32) + 8 * (16 div 8 - 1) + 7 - 109) < unat ((109::u32) + 8 * (16 div 8 - 0) + 0 - 109)"
    using s p1 p2 p3 by (intro exI conjI)
  show ?thesis
    by (intro conjI g l hl hb hp ho [THEN conjunct1] ho [THEN conjunct2, THEN conjunct1]
      ho [THEN conjunct2, THEN conjunct2, THEN conjunct1]
      ho [THEN conjunct2, THEN conjunct2, THEN conjunct2] e)
qed

lemma write_offset:
  assumes "w \<in> set (image_write_list W H x y input width height)"
  shows "\<exists>d. fst w = x + d \<and> 8 \<le> unat d \<and> unat d \<le> unat width + 7"
proof -
  from assms obtain l b p where b: "b < width div 8"
    and p: "p \<in> set (image_pixels W x (width div 8) b)"
    and e: "w = (x + 8 * (width div 8 - b) + p, y + l, ucast (input (b + l * (width div 8))), p)"
    unfolding image_write_mem by blast
  from image_pixels_facts(2) [OF p] have up: "unat p < 8" by simp
  from b have ub: "unat b < unat (width div 8)" by (simp add: word_less_nat_alt)
  have B: "8 * unat (width div 8) \<le> unat width" by (simp add: unat_div)
  have "8 \<le> 8 * (unat (width div 8) - unat b) + unat p"
    using ub unfolding diff_mult_distrib2 by linarith
  moreover have "8 * (unat (width div 8) - unat b) + unat p \<le> unat width + 7"
    using ub up B unfolding diff_mult_distrib2 by linarith
  ultimately have "8 \<le> unat (8 * (width div 8 - b) + p)"
    "unat (8 * (width div 8 - b) + p) \<le> unat width + 7"
    by (simp_all only: group_offset [OF b up])
  moreover have "fst w = x + (8 * (width div 8 - b) + p)" by (simp add: e add.assoc)
  ultimately show ?thesis by blast
qed

text \<open>
  Claim C8, as amended. No write of \<^verbatim>\<open>ssd1306_drawImage\<close> goes to one of the eight
  columns \<open>x, x + 1, ..., x + 7\<close>: every written column lies at least 8 columns to the
  right of \<open>x\<close> (counted modulo \<open>2^32\<close>), and the pixels of those eight columns are the
  same after the call as before. Column \<open>x + 8\<close> is written, in row \<open>y\<close>, whenever the
  image has a byte-group and a row (\<open>width \<ge> 8\<close>, \<open>height > 0\<close>), the row is on the display
  (\<open>y < H\<close>) and so is the column (\<open>x + 8 < W\<close>); where \<open>x + width\<close> does not wrap, every
  written column is numerically at least \<open>x + 8\<close>.
\<close>

theorem drawImage_skips_first_columns:
  "(\<forall>w\<in>set (drawImage_writes W H x y input width height).
      8 \<le> unat (fst w - x) \<and> (\<forall>j. j < 8 \<longrightarrow> fst w \<noteq> x + j)) \<and>
   (8 \<le> width \<and> 0 < height \<and> y < H \<and> x + 8 < W \<longrightarrow>
      (x + 8, y, ucast (input (width div 8 - 1)), 0)
        \<in> set (drawImage_writes W H x y input width height)) \<and>
   (unat x + unat width + 8 \<le> 2 ^ 32 \<longrightarrow>
      (\<forall>w\<in>set (drawImage_writes W H x y input width height). unat x + 8 \<le> unat (fst w))) \<and>
   (valid_geometry W H \<and> length buf = buffer_size W H \<longrightarrow>
      (\<exists>buf'. ssd1306_drawImage W H x y input width height mode buf = Some buf' \<and>
         (\<forall>j y'. j < 8 \<and> x + j < W \<and> y' < H \<longrightarrow>
            pixel_at W buf' (x + j) y' = pixel_at W buf (x + j) y')))"
proof -
  let ?ws = "drawImage_writes W H x y input width height"
  have off: "8 \<le> unat (fst w - x) \<and> (\<forall>j. j < 8 \<longrightarrow> fst w \<noteq> x + j)" if "w \<in> set ?ws" for w
  proof -
    from that write_offset obtain d where d: "fst w = x + d" "8 \<le> unat d"
      unfolding drawImage_writes_list by blast
    have "fst w - x = d" by (simp add: d(1))
    moreover have "fst w \<noteq> x + j" if "j < 8" for j
    proof
      assume "fst w = x + j"
      with d(1) have "d = j" by simp
      with d(2) that show False by (simp add: word_less_nat_alt)
    qed
    ultimately show ?thesis using d(2) by simp
  qed
  have c1: "\<forall>w\<in>set ?ws. 8 \<le> unat (fst w - x) \<and> (\<forall>j. j < 8 \<longrightarrow> fst w \<noteq> x + j)"
    using off by blast
  have c2: "8 \<le> width \<and> 0 < height \<and> y < H \<and> x + 8 < W \<longrightarrow>
      (x + 8, y, ucast (input (width div 8 - 1)), 0) \<in> set ?ws"
  proof
    assume a: "8 \<le> width \<and> 0 < height \<and> y < H \<and> x + 8 < W"
    then have "8 \<le> unat width" by (simp add: word_le_nat_alt)
    then have "1 \<le> unat width div 8" by simp
    then have B: "0 < unat (width div 8)" by (simp add: unat_div)
    then have nz: "width div 8 \<noteq> 0" by (simp add: unat_gt_0)
    then have b: "width div 8 - 1 < width div 8"
      using measure_unat [OF nz] by (simp add: word_less_nat_alt)
    from a have "0 < unat height" by (simp add: word_less_nat_alt)
    then have hl: "[0..<unat height] = 0 # [Suc 0..<unat height]" by (rule upt_conv_Cons)
    have l: "0 \<in> set (image_lines H y height)"
      using a by (simp add: image_lines_def hl)
    have p8: "[0..<8] = 0 # [Suc 0..<8]" by (rule upt_conv_Cons) simp
    have p: "0 \<in> set (image_pixels W x (width div 8) (width div 8 - 1))"
      using a unfolding image_pixels_def p8 by simp
    have "(x + 8 * (width div 8 - (width div 8 - 1)) + 0, y + 0,
           ucast (input (width div 8 - 1 + 0 * (width div 8))), 0)
          \<in> set (image_write_list W H x y input width height)"
      unfolding image_write_mem using l b p by blast
    then show "(x + 8, y, ucast (input (width div 8 - 1)), 0) \<in> set ?ws"
      unfolding drawImage_writes_list by simp
  qed
  have c3: "unat x + unat width + 8 \<le> 2 ^ 32 \<longrightarrow> (\<forall>w\<in>set ?ws. unat x + 8 \<le> unat (fst w))"
  proof (intro impI ballI)
    fix w assume n: "unat x + unat width + 8 \<le> 2 ^ 32" and w: "w \<in> set ?ws"
    from w write_offset obtain d where d: "fst w = x + d" "8 \<le> unat d" "unat d \<le> unat width + 7"
      unfolding drawImage_writes_list by blast
    from n d(3) have "unat x + unat d < 2 ^ 32" by simp
    then have "unat (x + d) = unat x + unat d" by (simp add: unat_add_lem [THEN iffD1])
    with d show "unat x + 8 \<le> unat (fst w)" by simp
  qed
  have c4: "valid_geometry W H \<and> length buf = buffer_size W H \<longrightarrow>
      (\<exists>buf'. ssd1306_drawImage W H x y input width height mode buf = Some buf' \<and>
         (\<forall>j y'. j < 8 \<and> x + j < W \<and> y' < H \<longrightarrow>
            pixel_at W buf' (x + j) y' = pixel_at W buf (x + j) y'))"
  proof
    assume a: "valid_geometry W H \<and> length buf = buffer_size W H"
    from drawImage_effect [of W H buf x y input width height mode] a obtain buf' where
      s: "ssd1306_drawImage W H x y input width height mode buf = Some buf'"
      and m: "\<And>x' y'. x' < W \<and> y' < H \<and> (\<forall>w\<in>set ?ws. fst w \<noteq> x' \<or> fst (snd w) \<noteq> y')
              \<Longrightarrow> pixel_at W buf' x' y' = pixel_at W buf x' y'"
      by blast
    have "pixel_at W buf' (x + j) y' = pixel_at W buf (x + j) y'"
      if "j < 8 \<and> x + j < W \<and> y' < H" for j y'
      using that off by (intro m) blast
    with s show "\<exists>buf'. ssd1306_drawImage W H x y input width height mode buf = Some buf' \<and>
         (\<forall>j y'. j < 8 \<and> x + j < W \<and> y' < H \<longrightarrow>
            pixel_at W buf' (x + j) y' = pixel_at W buf (x + j) y')"
      by blast
  qed
  show ?thesis by (intro conjI c1 c2 c3 c4)
qed

theorem drawImage_skips_first_columns_witness:
  "(8::u32) \<le> 8 \<and> (0::u32) < 1 \<and> (0::u32) < 64 \<and> (0::u32) + 8 < 128 \<and>
   (0 + 8, 0, ucast ((\<lambda>_. 0xFF :: u8) (8 div 8 - 1 :: u32)), 0)
      \<in> set (drawImage_writes 128 64 0 0 (\<lambda>_. 0xFF) 8 1) \<and>
   8 \<le> unat ((0::u32) + 8 - 0) \<and>
   unat (0::u32) + unat (8::u32) + 8 \<le> 2 ^ 32 \<and> unat (0::u32) + 8 \<le> unat ((0::u32) + 8) \<and>
   valid_geometry 128 64 \<and> length (replicate 1024 (0::u8)) = buffer_size 128 64 \<and>
   (\<exists>buf'. ssd1306_drawImage 128 64 0 0 (\<lambda>_. 0xFF) 8 1 0 (replicate 1024 0) = Some buf' \<and>
      pixel_at 128 buf' (0 + 7) 0 = pixel_at 128 (replicate 1024 0) (0 + 7) 0)"
proof -
  note t = drawImage_skips_first_columns [of 128 64 0 0 "\<lambda>_. 0xFF" 8 1 "replicate 1024 0" 0]
  have h2: "(8::u32) \<le> 8 \<and> (0::u32) < 1 \<and> (0::u32) < 64 \<and> (0::u32) + 8 < 128" by simp
  have m: "(0 + 8, 0, ucast ((\<lambda>_. 0xFF :: u8) (8 div 8 - 1 :: u32)), 0)
      \<in> set (drawImage_writes 128 64 0 0 (\<lambda>_. 0xFF) 8 1)"
    by (rule t [THEN conjunct2, THEN conjunct1, rule_format, OF h2])
  from t [THEN conjunct1, rule_format, OF m]
  have o: "8 \<le> unat ((0::u32) + 8 - 0)" by simp
  have h3: "unat (0::u32) + unat (8::u32) + 8 \<le> 2 ^ 32" by simp
  from t [THEN conjunct2, THEN conjunct2, THEN conjunct1, rule_format, OF h3 m]
  have n: "unat (0::u32) + 8 \<le> unat ((0::u32) + 8)" by simp
  have g: "valid_geometry 128 64" by (simp add: valid_geometry_def)
  have l: "length (replicate 1024 (0::u8)) = buffer_size 128 64" by (simp add: buffer_size_def)
  from t [THEN conjunct2, THEN conjunct2, THEN conjunct2, rule_format, OF conjI [OF g l]]
  obtain buf' where s: "ssd1306_drawImage 128 64 0 0 (\<lambda>_. 0xFF) 8 1 0 (replicate 1024 0) = Some buf'"
    and f: "\<forall>j y'. j < 8 \<and> 0 + j < 128 \<and> y' < 64 \<longrightarrow>
            pixel_at 128 buf' (0 + j) y' = pixel_at 128 (replicate 1024 0) (0 + j) y'"
    by (elim exE conjE)
  have r: "(7::u32) < 8 \<and> (0::u32) + 7 < 128 \<and> (0::u32) < 64" by simp
  have p: "pixel_at 128 buf' (0 + 7) 0 = pixel_at 128 (replicate 1024 0) (0 + 7) 0"
    by (rule f [rule_format, OF r])
  have e: "\<exists>buf'. ssd1306_drawImage 128 64 0 0 (\<lambda>_. 0xFF) 8 1 0 (replicate 1024 0) = Some buf' \<and>
      pixel_at 128 buf' (0 + 7) 0 = pixel_at 128 (replicate 1024 0) (0 + 7) 0"
    using s p by (intro exI conjI)
  show ?thesis
    by (intro conjI h2 [THEN conjunct1] h2 [THEN conjunct2, THEN conjunct1]
      h2 [THEN conjunct2, THEN conjunct2, THEN conjunct1]
      h2 [THEN conjunct2, THEN conjunct2, THEN conjunct2] m o h3 n g l e)
qed

text \<open>
  The claim as stated fails where column \<open>x + 8\<close> is not on the display. Called with
  \<open>x = 0xFFFFFFF0\<close> (the \<^verbatim>\<open>uint32_t\<close> value of \<open>-16\<close>), \<open>width = 16\<close> and one row on a 128x64
  display, the routine writes the columns 0 to 7, from byte-group 0: the smallest column
  written is \<open>x + 16\<close>, and nothing is written at \<open>x + 8\<close>. Called with \<open>x = 125\<close> and
  \<open>width = 8\<close> it writes nothing at all.
\<close>

theorem drawImage_skips_first_columns_counterexample:
  "drawImage_writes 128 64 0xFFFFFFF0 0 (\<lambda>_. 0xFF) 16 1
     = [(0, 0, 255, 0), (1, 0, 255, 1), (2, 0, 255, 2), (3, 0, 255, 3),
        (4, 0, 255, 4), (5, 0, 255, 5), (6, 0, 255, 6), (7, 0, 255, 7)] \<and>
   (0xFFFFFFF0 :: u32) + 16 = 0 \<and> (0xFFFFFFF0 :: u32) + 8 = 0xFFFFFFF8 \<and>
   drawImage_writes 128 64 125 0 (\<lambda>_. 0xFF) 8 1 = []"
proof -
  have u: "[0..<8] = [0, 1, 2, 3, 4, 5, 6, Suc 6]" "[0..<Suc 0] = [0]" "[0..<2] = [0, Suc 0]"
    by (simp_all add: upt_rec)
  have d: "unat ((16::u32) div 8) = 2" "unat ((8::u32) div 8) = Suc 0" by simp_all
  have a: "drawImage_writes 128 64 0xFFFFFFF0 0 (\<lambda>_. 0xFF) 16 1
     = [(0, 0, 255, 0), (1, 0, 255, 1), (2, 0, 255, 2), (3, 0, 255, 3),
        (4, 0, 255, 4), (5, 0, 255, 5), (6, 0, 255, 6), (7, 0, 255, 7)]"
    unfolding drawImage_writes_list image_write_list_def image_lines_def image_row_def
      image_group_def image_pixels_def d
    by (simp add: u del: upt_Suc)
  have b: "drawImage_writes 128 64 125 0 (\<lambda>_. 0xFF) 8 1 = []"
    unfolding drawImage_writes_list image_write_list_def image_lines_def image_row_def
      image_group_def image_pixels_def d
    by (simp add: u del: upt_Suc)
  from a b show ?thesis by simp
qed

subsection \<open>Every write stays inside the array\<close>

lemma fb_pixel_ok:
  assumes "valid_geometry W H" "fb_ok W H s"
  shows "fb_ok W H (fb_pixel W H x y c s)"
proof -
  from assms(2) obtain buf where s: "s = Some buf" and l: "length buf = buffer_size W H"
    unfolding fb_ok_def by blast
  from drawPixel_pixel_at [OF assms(1) l, of x y c] l show ?thesis
    unfolding fb_ok_def s fb_pixel_def by auto
qed

lemma xorPixel_ok:
  assumes "valid_geometry W H" "length buf = buffer_size W H"
  shows "fb_ok W H (ssd1306_xorPixel W H x y buf)"
proof (cases "x < W \<and> y < H")
  case True
  with xorPixel_bits [OF assms, of x y] assms(2) show ?thesis
    unfolding fb_ok_def by auto
next
  case False
  then have "W \<le> x \<or> H \<le> y" by (auto simp: not_less)
  with assms(2) show ?thesis unfolding fb_ok_def by (simp add: pixel_clipped)
qed

lemma fold_preserves:
  "(\<And>a s. P s \<Longrightarrow> P (f a s)) \<Longrightarrow> P s \<Longrightarrow> P (fold f xs s)"
  by (induction xs arbitrary: s) simp_all

lemma hline_preserves:
  assumes "\<And>x y c s. P s \<Longrightarrow> P (plot x y c s)" "P s"
  shows "P (drawFastHLine_gen plot W H x y w color s)"
proof -
  have "P (fold (\<lambda>k. plot (x + of_nat k) y color) ks s)" for ks
    by (rule fold_preserves [where P = P, OF assms(1) assms(2)])
  then show ?thesis
    unfolding drawFastHLine_gen_def hline_loop_fold Let_def using assms(2) by simp
qed

lemma line_loop_preserves:
  "(\<And>x y c s. P s \<Longrightarrow> P (plot x y c s)) \<Longrightarrow> P s
     \<Longrightarrow> P (line_loop plot steep dx dy ystep x1 color x y err s)"
proof (induction plot steep dx dy ystep x1 color x y err s rule: line_loop.induct)
  case (1 plot steep deltax deltay ystep x1 color x y error s)
  show ?case
  proof (cases "x \<le> x1")
    case False
    with "1.prems"(2) show ?thesis by (subst line_loop.simps) simp
  next
    case True
    let ?s' = "if steep then plot (word_of_int y) (word_of_int x) color s
               else plot (word_of_int x) (word_of_int y) color s"
    from "1.prems"(1) "1.prems"(2) have p: "P ?s'" by simp
    show ?thesis
    proof (cases "error - deltay < 0")
      case True
      from "1.IH"(1) [OF \<open>x \<le> x1\<close> refl refl True "1.prems"(1) p] \<open>x \<le> x1\<close> True
      show ?thesis by (subst line_loop.simps) (simp add: Let_def)
    next
      case False
      from "1.IH"(2) [OF \<open>x \<le> x1\<close> refl refl False "1.prems"(1) p] \<open>x \<le> x1\<close> False
      show ?thesis by (subst line_loop.simps) (simp add: Let_def)
    qed
  qed
qed

lemma drawLine_preserves:
  assumes "\<And>x y c s. P s \<Longrightarrow> P (plot x y c s)" "P s"
  shows "P (drawLine_gen plot x0 y0 x1 y1 color s)"
  unfolding drawLine_gen_def Let_def
  by (simp only: split_def)
    (rule line_loop_preserves [where P = P and plot = plot, OF assms])

lemma circle_loop_invariant:
  assumes "0 \<le> r" "r \<le> 715827880" "circle_inv r st" "\<And>a b s. P s \<Longrightarrow> P (body a b s)" "P s"
  shows "\<exists>s'. circle_loop body st s = Some s' \<and> P s'"
proof -
  from circle_loop_returns [OF assms(1-3), of body s] obtain s' where s: "circle_loop body st s = Some s'"
    by blast
  from circle_loop_preserves [where P = P, OF assms(4) s assms(5)] s show ?thesis by blast
qed

lemma circle_points_preserves:
  assumes "\<And>x y c s. P s \<Longrightarrow> P (plot x y c s)" "P s"
  shows "P (circle_points plot x y color x_pos y_pos s)"
  unfolding circle_points_def Let_def using assms by simp

lemma fill_body_preserves:
  assumes "\<And>x y c s. P s \<Longrightarrow> P (plot x y c s)" "P s"
  shows "P (fill_body plot W H x y color x_pos y_pos s)"
proof -
  have 1: "P (circle_points plot x y color x_pos y_pos s)"
    by (rule circle_points_preserves [where P = P, OF assms])
  have 2: "P (drawFastHLine_gen plot W H a b c d s)" if "P s" for a b c d s
    by (rule hline_preserves [where P = P, OF assms(1) that])
  show ?thesis unfolding fill_body_def Let_def by (intro 2 1)
qed

lemma drawchar_cols_preserves:
  assumes "\<And>x y c s. P s \<Longrightarrow> P (plot x y c s)"
  shows "P s \<Longrightarrow> P (drawchar_cols plot x yi color d js s)"
  by (induction js arbitrary: d s) (simp_all add: Let_def assms)

lemma drawchar_preserves:
  assumes "\<And>x y c s. P s \<Longrightarrow> P (plot x y c s)" "P s"
  shows "P (drawchar_gen plot fontdata x y chr color s)"
proof -
  have "P (drawchar_cols plot x yi color d js s)" if "P s" for yi d js s
    by (rule drawchar_cols_preserves [where P = P and plot = plot, OF assms(1) that])
  then show ?thesis
    unfolding drawchar_gen_def by (intro fold_preserves [where P = P] assms(2))
qed

lemma drawstr_loop_preserves:
  assumes "\<And>x c s. P s \<Longrightarrow> P (emit x c s)"
  shows "P s \<Longrightarrow> P (drawstr_loop emit x str s)"
  by (induction str arbitrary: x s) (simp_all add: Let_def assms)

text \<open>
  Claim C10. With a height that is a multiple of 8 (and a framebuffer of \<open>W * H / 8\<close>
  bytes), whenever the guards \<open>x < W\<close> and \<open>y < H\<close> hold the address \<open>x + W * (y / 8)\<close> is
  below the array size. In the model a write outside the array makes the result \<open>None\<close>;
  \<^verbatim>\<open>ssd1306_drawPixel\<close>, \<^verbatim>\<open>ssd1306_xorPixel\<close> and \<^verbatim>\<open>ssd1306_drawImage\<close> never produce
  it, for any arguments, and neither do the primitives built on the pixel accessor
  (horizontal line, line, character and string; circle and filled circle, which for
  every radius return an intact framebuffer if they return, and do return for a radius
  from 0 to 715827880), nor does any sequence of \<^verbatim>\<open>ssd1306_drawPixel\<close> calls or of
  \<^verbatim>\<open>ssd1306_xorPixel\<close> calls, which is all that the remaining primitives perform: each
  returns a framebuffer of the same size.
\<close>

theorem writes_in_bounds:
  assumes "valid_geometry W H" and "length buf = buffer_size W H"
  shows "(x < W \<and> y < H \<longrightarrow> unat (x + W * (y div 8)) < length buf) \<and>
         fb_ok W H (ssd1306_drawPixel W H x y color buf) \<and>
         fb_ok W H (ssd1306_xorPixel W H x y buf) \<and>
         fb_ok W H (ssd1306_drawImage W H x y input width height mode buf) \<and>
         fb_ok W H (ssd1306_drawFastHLine W H x y w color buf) \<and>
         fb_ok W H (ssd1306_drawLine W H x0 y0 x1 y1 color buf) \<and>
         (\<forall>s. ssd1306_drawCircle W H cx cy radius icolor buf = Some s \<longrightarrow> fb_ok W H s) \<and>
         (\<forall>s. ssd1306_fillCircle W H cx cy radius icolor buf = Some s \<longrightarrow> fb_ok W H s) \<and>
         (0 \<le>s radius \<and> radius \<le>s 715827880 \<longrightarrow>
            (\<exists>s. ssd1306_drawCircle W H cx cy radius icolor buf = Some s \<and> fb_ok W H s) \<and>
            (\<exists>s. ssd1306_fillCircle W H cx cy radius icolor buf = Some s \<and> fb_ok W H s)) \<and>
         fb_ok W H (ssd1306_drawchar W H fontdata x8 y8 chr color8 (Some buf)) \<and>
         fb_ok W H (ssd1306_drawstr W H fontdata x8 y8 str color8 buf) \<and>
         fb_ok W H (fold (\<lambda>c. fb_pixel W H (fst c) (fst (snd c)) (snd (snd c))) calls (Some buf)) \<and>
         fb_ok W H (fold (\<lambda>c s. case s of None \<Rightarrow> None
                                  | Some b \<Rightarrow> ssd1306_xorPixel W H (fst c) (snd c) b)
                      xcalls (Some buf))"
proof -
  have ok: "fb_ok W H (Some buf)" using assms(2) by (simp add: fb_ok_def)
  have px: "fb_ok W H (fb_pixel W H a b c s)" if "fb_ok W H s" for a b c s
    using assms(1) that by (rule fb_pixel_ok)
  have c1: "x < W \<and> y < H \<longrightarrow> unat (x + W * (y div 8)) < length buf"
    using pixel_addr [OF assms(1), of x y] assms(2) by simp
  have c2: "fb_ok W H (ssd1306_drawPixel W H x y color buf)"
    using px [OF ok, of x y color] by (simp add: fb_pixel_def)
  have c3: "fb_ok W H (ssd1306_xorPixel W H x y buf)"
    by (rule xorPixel_ok [OF assms])
  have c4: "fb_ok W H (ssd1306_drawImage W H x y input width height mode buf)"
    using drawImage_effect [OF assms, of x y input width height mode] assms(2)
    unfolding fb_ok_def by auto
  have c5: "fb_ok W H (ssd1306_drawFastHLine W H x y w color buf)"
    unfolding ssd1306_drawFastHLine_def
    by (rule hline_preserves [where P = "fb_ok W H", OF px ok])
  have c6: "fb_ok W H (ssd1306_drawLine W H x0 y0 x1 y1 color buf)"
    unfolding ssd1306_drawLine_def
    by (rule drawLine_preserves [where P = "fb_ok W H", OF px ok])
  have p1: "fb_ok W H (circle_points (fb_pixel W H) cx cy icolor a b s)" if "fb_ok W H s" for a b s
    by (rule circle_points_preserves [where P = "fb_ok W H", OF px that])
  have p2: "fb_ok W H (fill_body (fb_pixel W H) W H cx cy icolor a b s)" if "fb_ok W H s" for a b s
    by (rule fill_body_preserves [where P = "fb_ok W H", OF px that])
  have c7a: "\<forall>s. ssd1306_drawCircle W H cx cy radius icolor buf = Some s \<longrightarrow> fb_ok W H s"
    unfolding ssd1306_drawCircle_def drawCircle_gen_def
    using circle_loop_preserves [where P = "fb_ok W H"
        and body = "circle_points (fb_pixel W H) cx cy icolor", OF p1 _ ok] by blast
  have c7b: "\<forall>s. ssd1306_fillCircle W H cx cy radius icolor buf = Some s \<longrightarrow> fb_ok W H s"
    unfolding ssd1306_fillCircle_def fillCircle_gen_def
    using circle_loop_preserves [where P = "fb_ok W H"
        and body = "fill_body (fb_pixel W H) W H cx cy icolor", OF p2 _ ok] by blast
  have c7: "0 \<le>s radius \<and> radius \<le>s 715827880 \<longrightarrow>
            (\<exists>s. ssd1306_drawCircle W H cx cy radius icolor buf = Some s \<and> fb_ok W H s) \<and>
            (\<exists>s. ssd1306_fillCircle W H cx cy radius icolor buf = Some s \<and> fb_ok W H s)"
  proof (intro impI conjI)
    assume a: "0 \<le>s radius \<and> radius \<le>s 715827880"
    then have a1: "0 \<le>s radius" and a2: "radius \<le>s 715827880" by simp_all
    note r = radius_range [OF a1 a2]
    note i = circle_inv_init [OF a1 a2]
    show "\<exists>s. ssd1306_drawCircle W H cx cy radius icolor buf = Some s \<and> fb_ok W H s"
      unfolding ssd1306_drawCircle_def drawCircle_gen_def
      by (rule circle_loop_invariant [where P = "fb_ok W H", OF r i p1 ok])
    show "\<exists>s. ssd1306_fillCircle W H cx cy radius icolor buf = Some s \<and> fb_ok W H s"
      unfolding ssd1306_fillCircle_def fillCircle_gen_def
      by (rule circle_loop_invariant [where P = "fb_ok W H", OF r i p2 ok])
  qed
  have ch: "fb_ok W H (ssd1306_drawchar W H fontdata a b c d s)" if "fb_ok W H s" for a b c d s
    unfolding ssd1306_drawchar_def
    by (rule drawchar_preserves [where P = "fb_ok W H", OF px that])
  have c8: "fb_ok W H (ssd1306_drawchar W H fontdata x8 y8 chr color8 (Some buf))"
    by (rule ch [OF ok])
  have c9: "fb_ok W H (ssd1306_drawstr W H fontdata x8 y8 str color8 buf)"
    unfolding ssd1306_drawstr_def
    by (rule drawstr_loop_preserves [where P = "fb_ok W H", OF ch ok])
  have c10: "fb_ok W H (fold (\<lambda>c. fb_pixel W H (fst c) (fst (snd c)) (snd (snd c))) calls (Some buf))"
    by (rule fold_preserves [where P = "fb_ok W H", OF px ok])
  have xo: "fb_ok W H (case s of None \<Rightarrow> None | Some b \<Rightarrow> ssd1306_xorPixel W H a c b)"
    if "fb_ok W H s" for a c s
  proof -
    from that obtain b where "s = Some b" "length b = buffer_size W H"
      unfolding fb_ok_def by blast
    with xorPixel_ok [OF assms(1), of b a c] show ?thesis by simp
  qed
  have c11: "fb_ok W H (fold (\<lambda>c s. case s of None \<Rightarrow> None
                                  | Some b \<Rightarrow> ssd1306_xorPixel W H (fst c) (snd c) b)
                      xcalls (Some buf))"
    by (rule fold_preserves [where P = "fb_ok W H", OF xo ok])
  show ?thesis by (intro conjI c1 c2 c3 c4 c5 c6 c7a c7b c7 c8 c9 c10 c11)
qed

theorem writes_in_bounds_witness:
  "valid_geometry 128 64 \<and> length (replicate 1024 (0::u8)) = buffer_size 128 64 \<and>
   (127::u32) < 128 \<and> (63::u32) < 64 \<and>
   unat ((127::u32) + 128 * (63 div 8)) < length (replicate 1024 (0::u8)) \<and>
   fb_ok 128 64 (ssd1306_drawImage 128 64 120 60 (\<lambda>_. 0xFF) 32 32 0 (replicate 1024 0)) \<and>
   (0::s32) \<le>s 15 \<and> (15::s32) \<le>s 715827880 \<and>
   (\<exists>s. ssd1306_fillCircle 128 64 0 32 15 1 (replicate 1024 0) = Some s \<and> fb_ok 128 64 s)"
proof -
  have g: "valid_geometry 128 64" by (simp add: valid_geometry_def)
  have l: "length (replicate 1024 (0::u8)) = buffer_size 128 64" by (simp add: buffer_size_def)
  note t = writes_in_bounds [OF g l, where x = 127 and y = 63 and radius = 15 and cx = 0
      and cy = 32 and icolor = 1]
  have xy: "(127::u32) < 128 \<and> (63::u32) < 64" by simp
  have a: "unat ((127::u32) + 128 * (63 div 8)) < length (replicate 1024 (0::u8))"
    by (rule t [THEN conjunct1, rule_format, OF xy])
  note u = writes_in_bounds [OF g l, where x = 120 and y = 60 and input = "\<lambda>_. 0xFF"
      and width = 32 and height = 32 and mode = 0]
  have b: "fb_ok 128 64 (ssd1306_drawImage 128 64 120 60 (\<lambda>_. 0xFF) 32 32 0 (replicate 1024 0))"
    by (rule u [THEN conjunct2, THEN conjunct2, THEN conjunct2, THEN conjunct1])
  have r: "(0::s32) \<le>s 15 \<and> (15::s32) \<le>s 715827880" by (simp add: word_sle_eq)
  have c: "\<exists>s. ssd1306_fillCircle 128 64 0 32 15 1 (replicate 1024 0) = Some s \<and> fb_ok 128 64 s"
    by (rule t [THEN conjunct2, THEN conjunct2, THEN conjunct2, THEN conjunct2, THEN conjunct2,
          THEN conjunct2, THEN conjunct2, THEN conjunct2, THEN conjunct1, rule_format, OF r,
          THEN conjunct2])
  show ?thesis
    by (intro conjI g l xy [THEN conjunct1] xy [THEN conjunct2] a b r [THEN conjunct1]
      r [THEN conjunct2] c)
qed

end
